theory Spec2Isabelle
  imports Main "HOL-Library.Word" "HOL-Library.AList"
begin

unbundle bit_operations_syntax

section \<open>Failures\<close>

text \<open>
  The C++ sources signal failure in two ways. Some operations have undefined behaviour
  (integer division by zero in \<open>r = ++r % w\<close>, \<open>i = ++i % k\<close> and
  \<open>tokens.size() / w\<close>, or reading \<open>memory[i]\<close> of an empty vector); these are
  \<open>UndefinedBehaviour\<close>. \<open>std::unordered_map::at\<close> throws \<open>std::out_of_range\<close>,
  and the JSON accessors (\<open>at\<close>, \<open>as_object\<close>, \<open>as_array\<close>, \<open>as_string\<close>,
  \<open>as_int64\<close>) throw on a missing key or a value of another kind.
\<close>

datatype error = UndefinedBehaviour | OutOfRange | JsonError

section \<open>hashing.h: winnowFilter\<close>

text \<open>
  \<open>std::ranges::min_element\<close>: the position of the first smallest element, found by a
  left-to-right scan that replaces the candidate only on a strictly smaller element.
\<close>

definition min_element :: "'a::linorder list \<Rightarrow> nat" where
  "min_element h =
     foldl (\<lambda>smallest i. if h ! i < h ! smallest then i else smallest) 0 [1..<length h]"

text \<open>
  The loop state of \<open>winnowFilter\<close>: the circular buffer \<open>h\<close>, the write cursor \<open>r\<close>,
  the position \<open>min\<close> and the output vector \<open>filtered\<close>. \<open>r\<close> and \<open>min\<close> are
  \<open>uint64_t\<close> in the source and stay below \<open>w < 2^32\<close>, so they never wrap and are
  natural numbers here.
\<close>

record winnow_state =
  h_buf :: "64 word list"
  r_pos :: nat
  min_pos :: nat
  filtered :: "64 word list"

text \<open>The vector \<open>h(w, numeric_limits<uint64_t>::max())\<close> and \<open>r = 0\<close>, \<open>min = 0\<close>.\<close>

definition winnow_init :: "nat \<Rightarrow> winnow_state" where
  "winnow_init w = \<lparr>h_buf = replicate w (- 1), r_pos = 0, min_pos = 0, filtered = []\<rparr>"

text \<open>One iteration of the \<open>for\<close> loop (hashing.h lines 80 to 92) on the hash \<open>x = *it\<close>.\<close>

definition winnow_step :: "nat \<Rightarrow> winnow_state \<Rightarrow> 64 word \<Rightarrow> winnow_state" where
  "winnow_step w s x =
     (let r = (r_pos s + 1) mod w;
          h = (h_buf s)[r := x]
      in if min_pos s = r then
           (let m = min_element h
            in \<lparr>h_buf = h, r_pos = r, min_pos = m, filtered = filtered s @ [h ! m]\<rparr>)
         else if h ! min_pos s < h ! r then
           \<lparr>h_buf = h, r_pos = r, min_pos = r, filtered = filtered s @ [h ! r]\<rparr>
         else \<lparr>h_buf = h, r_pos = r, min_pos = min_pos s, filtered = filtered s\<rparr>)"

definition winnow_run :: "nat \<Rightarrow> 64 word list \<Rightarrow> winnow_state" where
  "winnow_run w xs = foldl (winnow_step w) (winnow_init w) xs"

text \<open>
  \<open>winnowFilter(w, begin, end)\<close> on the hashes of the range. With \<open>w = 0\<close> the first
  iteration divides by zero; on an empty range the loop body never runs. The optional
  \<open>sizeEstimation\<close> only reserves capacity for the output and is left out.
\<close>

definition winnowFilter :: "32 word \<Rightarrow> 64 word list \<Rightarrow> error + 64 word list" where
  "winnowFilter w xs =
     (if w = 0 \<and> xs \<noteq> [] then Inl UndefinedBehaviour
      else Inr (filtered (winnow_run (unat w) xs)))"

text \<open>
  The algorithm as the specification words it: the incremental branch compares
  \<open>h[min] > h[r]\<close>, that is, it fires when the incoming hash is strictly smaller than
  the one at \<open>min\<close>. Everything else is as in \<open>winnow_step\<close>.
\<close>

definition winnow_step_spec :: "nat \<Rightarrow> winnow_state \<Rightarrow> 64 word \<Rightarrow> winnow_state" where
  "winnow_step_spec w s x =
     (let r = (r_pos s + 1) mod w;
          h = (h_buf s)[r := x]
      in if min_pos s = r then
           (let m = min_element h
            in \<lparr>h_buf = h, r_pos = r, min_pos = m, filtered = filtered s @ [h ! m]\<rparr>)
         else if h ! min_pos s > h ! r then
           \<lparr>h_buf = h, r_pos = r, min_pos = r, filtered = filtered s @ [h ! r]\<rparr>
         else \<lparr>h_buf = h, r_pos = r, min_pos = min_pos s, filtered = filtered s\<rparr>)"

definition winnowFilter_spec :: "32 word \<Rightarrow> 64 word list \<Rightarrow> 64 word list" where
  "winnowFilter_spec w xs = filtered (foldl (winnow_step_spec (unat w)) (winnow_init (unat w)) xs)"

text \<open>
  The invariant of the loop after the hashes \<open>ys\<close> have been consumed: the cursor is
  \<open>length ys mod w\<close>; the hash consumed at step \<open>j + 1\<close> sits at position
  \<open>(j + 1) mod w\<close> as long as it is among the last \<open>w\<close>; before the buffer has filled,
  \<open>min\<close> is still \<open>0\<close>, slot \<open>0\<close> still holds the initial maximum and nothing was
  emitted; afterwards the hash at \<open>min\<close> has been emitted.
\<close>

definition winnow_inv :: "nat \<Rightarrow> 64 word list \<Rightarrow> winnow_state \<Rightarrow> bool" where
  "winnow_inv w ys s \<longleftrightarrow>
     length (h_buf s) = w \<and> r_pos s = length ys mod w \<and> min_pos s < w \<and>
     (\<forall>j < length ys. length ys \<le> j + w \<longrightarrow> h_buf s ! (Suc j mod w) = ys ! j) \<and>
     (length ys < w \<longrightarrow> min_pos s = 0 \<and> h_buf s ! 0 = - 1 \<and> filtered s = []) \<and>
     (w \<le> length ys \<longrightarrow> h_buf s ! min_pos s \<in> set (filtered s))"

section \<open>Properties of winnowFilter\<close>

lemma min_scan_less:
  "a < length h \<Longrightarrow> set js \<subseteq> {..<length h} \<Longrightarrow>
   foldl (\<lambda>smallest i. if h ! i < h ! smallest then i else smallest) a js < length h"
  by (induction js arbitrary: a) auto

lemma min_element_less: "h \<noteq> [] \<Longrightarrow> min_element h < length h"
  unfolding min_element_def by (rule min_scan_less) auto

lemma mod_Suc_neq:
  assumes "j < n" "n < j + w"
  shows "Suc j mod w \<noteq> Suc n mod w"
proof
  assume "Suc j mod w = Suc n mod w"
  then have "w dvd (Suc n - Suc j)"
    using assms by (metis mod_eq_dvd_iff_nat Suc_le_mono less_imp_le)
  then have "w dvd (n - j)" by simp
  moreover have "0 < n - j" "n - j < w" using assms by auto
  ultimately show False using nat_dvd_not_less by blast
qed

lemma word64_max_not_less: "\<not> (- 1 :: 64 word) < x"
  by (simp add: not_less)

lemma winnow_inv_init: "0 < w \<Longrightarrow> winnow_inv w [] (winnow_init w)"
  by (simp add: winnow_inv_def winnow_init_def)

lemma winnow_inv_step:
  assumes inv: "winnow_inv w ys s" and w: "0 < w"
  shows "winnow_inv w (ys @ [x]) (winnow_step w s x)"
proof -
  let ?n = "length ys"
  let ?r = "(r_pos s + 1) mod w"
  let ?h = "(h_buf s)[?r := x]"
  from inv have len: "length (h_buf s) = w" and r: "r_pos s = ?n mod w" and m: "min_pos s < w"
    and buf: "\<And>j. j < ?n \<Longrightarrow> ?n \<le> j + w \<Longrightarrow> h_buf s ! (Suc j mod w) = ys ! j"
    and early: "?n < w \<Longrightarrow> min_pos s = 0 \<and> h_buf s ! 0 = - 1 \<and> filtered s = []"
    and late: "w \<le> ?n \<Longrightarrow> h_buf s ! min_pos s \<in> set (filtered s)"
    by (auto simp: winnow_inv_def)
  have r': "?r = Suc ?n mod w" using r by (simp add: mod_Suc_eq)
  have rlt: "?r < w" using w by simp
  have hr: "?h ! ?r = x" using rlt len by simp
  have buf': "?h ! (Suc j mod w) = (ys @ [x]) ! j" if "j < Suc ?n" "Suc ?n \<le> j + w" for j
  proof (cases "j = ?n")
    case True
    then show ?thesis using hr r' by simp
  next
    case False
    with that have jn: "j < ?n" "?n < j + w" by auto
    then have "Suc j mod w \<noteq> ?r" unfolding r' by (rule mod_Suc_neq)
    then have "?h ! (Suc j mod w) = h_buf s ! (Suc j mod w)" by simp
    also have "\<dots> = ys ! j" using buf jn by simp
    finally show ?thesis using jn by (simp add: nth_append)
  qed
  have hne: "?h \<noteq> []" using len w by auto
  have mel: "min_element ?h < w" using min_element_less[OF hne] len by simp
  show ?thesis
  proof (cases "min_pos s = ?r")
    case True
    then have step: "winnow_step w s x =
        \<lparr>h_buf = ?h, r_pos = ?r, min_pos = min_element ?h,
         filtered = filtered s @ [?h ! min_element ?h]\<rparr>"
      by (simp add: winnow_step_def Let_def)
    have "Suc ?n < w \<Longrightarrow> False"
    proof -
      assume a: "Suc ?n < w"
      then have "min_pos s = 0" using early by simp
      moreover have "?r = Suc ?n" using a r' by simp
      ultimately show False using True by simp
    qed
    then show ?thesis
      unfolding winnow_inv_def step using len r' mel buf' by auto
  next
    case False
    show ?thesis
    proof (cases "?h ! min_pos s < ?h ! ?r")
      case lt: True
      then have step: "winnow_step w s x =
          \<lparr>h_buf = ?h, r_pos = ?r, min_pos = ?r, filtered = filtered s @ [?h ! ?r]\<rparr>"
        using False by (simp add: winnow_step_def Let_def)
      have "Suc ?n < w \<Longrightarrow> False"
      proof -
        assume a: "Suc ?n < w"
        then have "min_pos s = 0" "h_buf s ! 0 = - 1" using early by simp_all
        moreover have "?r = Suc ?n" using a r' by simp
        ultimately have "?h ! min_pos s = - 1" by simp
        then show False using lt word64_max_not_less by metis
      qed
      then show ?thesis
        unfolding winnow_inv_def step using len r' rlt buf' by auto
    next
      case ge: False
      then have step: "winnow_step w s x =
          \<lparr>h_buf = ?h, r_pos = ?r, min_pos = min_pos s, filtered = filtered s\<rparr>"
        using False by (simp add: winnow_step_def Let_def)
      have same: "?h ! min_pos s = h_buf s ! min_pos s" using False by simp
      have e: "min_pos s = 0 \<and> ?h ! 0 = - 1 \<and> filtered s = []" if a: "Suc ?n < w"
      proof -
        have "min_pos s = 0 \<and> h_buf s ! 0 = - 1 \<and> filtered s = []" using early a by simp
        moreover have "?r = Suc ?n" using a r' by simp
        ultimately show ?thesis by simp
      qed
      have l: "?h ! min_pos s \<in> set (filtered s)" if a: "w \<le> Suc ?n"
      proof (cases "w \<le> ?n")
        case True
        then show ?thesis using late same by simp
      next
        case False
        then have "Suc ?n = w" using a by simp
        then have "?r = 0" using r' by simp
        moreover have "min_pos s = 0" using early False by simp
        ultimately show ?thesis using \<open>min_pos s \<noteq> ?r\<close> by simp
      qed
      show ?thesis
        unfolding winnow_inv_def step using len r' m buf' e l by auto
    qed
  qed
qed

lemma winnow_run_snoc: "winnow_run w (ys @ [x]) = winnow_step w (winnow_run w ys) x"
  by (simp add: winnow_run_def)

lemma winnow_inv_run: "0 < w \<Longrightarrow> winnow_inv w ys (winnow_run w ys)"
proof (induction ys rule: rev_induct)
  case Nil
  then show ?case by (simp add: winnow_run_def winnow_inv_init)
next
  case (snoc x ys)
  then show ?case by (simp add: winnow_run_snoc winnow_inv_step)
qed

lemma filtered_step_mono: "set (filtered s) \<subseteq> set (filtered (winnow_step w s x))"
  by (auto simp: winnow_step_def Let_def)

lemma filtered_foldl_mono: "set (filtered s) \<subseteq> set (filtered (foldl (winnow_step w) s zs))"
proof (induction zs arbitrary: s)
  case Nil
  then show ?case by simp
next
  case (Cons z zs)
  have "set (filtered s) \<subseteq> set (filtered (winnow_step w s z))" by (rule filtered_step_mono)
  also have "\<dots> \<subseteq> set (filtered (foldl (winnow_step w) (winnow_step w s z) zs))" by (rule Cons.IH)
  finally show ?case by simp
qed

lemma filtered_run_append: "set (filtered (winnow_run w ys)) \<subseteq> set (filtered (winnow_run w (ys @ zs)))"
  by (simp add: winnow_run_def filtered_foldl_mono)

lemma residue_in_window:
  assumes "m < w" "w \<le> (n::nat)"
  shows "\<exists>j. j < n \<and> n \<le> j + w \<and> Suc j mod w = m"
proof -
  define d where "d = (n - m) mod w"
  have w: "0 < w" using assms by simp
  have dlt: "d < w" unfolding d_def using w by simp
  have "n - d = m + w * ((n - m) div w)"
  proof -
    have "n - m = w * ((n - m) div w) + d" unfolding d_def by simp
    then show ?thesis using assms by linarith
  qed
  then have md: "(n - d) mod w = m" using assms by simp
  have pos: "0 < n - d" using dlt assms by simp
  then obtain j where j: "Suc j = n - d" by (metis Suc_pred)
  have "j < n" using j by linarith
  moreover have "n \<le> j + w" using j dlt by linarith
  moreover have "Suc j mod w = m" using j md by simp
  ultimately show ?thesis by blast
qed

lemma winnow_run_covers:
  assumes w: "0 < w" and n: "w \<le> length ys"
  shows "\<exists>v \<in> set (drop (length ys - w) ys). v \<in> set (filtered (winnow_run w ys))"
proof -
  let ?s = "winnow_run w ys"
  have inv: "winnow_inv w ys ?s" using w by (rule winnow_inv_run)
  then have m: "min_pos ?s < w" and emitted: "h_buf ?s ! min_pos ?s \<in> set (filtered ?s)"
    and buf: "\<And>j. j < length ys \<Longrightarrow> length ys \<le> j + w \<Longrightarrow> h_buf ?s ! (Suc j mod w) = ys ! j"
    using n by (auto simp: winnow_inv_def)
  obtain j where j: "j < length ys" "length ys \<le> j + w" "Suc j mod w = min_pos ?s"
    using residue_in_window[OF m n] by blast
  have "h_buf ?s ! min_pos ?s = ys ! j" using buf[OF j(1,2)] j(3) by simp
  moreover have "ys ! j \<in> set (drop (length ys - w) ys)"
  proof -
    have "ys ! j = drop (length ys - w) ys ! (j - (length ys - w))" using j by simp
    moreover have "j - (length ys - w) < length (drop (length ys - w) ys)" using j n w by auto
    ultimately show ?thesis by (metis nth_mem)
  qed
  ultimately show ?thesis using emitted by auto
qed

text \<open>
  Claim C2. For every window size \<open>w \<ge> 1\<close> and every sequence of window hashes,
  \<open>winnowFilter\<close> returns, and every contiguous run of \<open>w\<close> consecutive input hashes
  (the run starting at any position \<open>i\<close>) contains a hash value that occurs in the
  returned fingerprint sequence.
\<close>

theorem winnow_coverage:
  assumes "w \<noteq> 0" and "i + unat w \<le> length xs"
  shows "\<exists>fs. winnowFilter w xs = Inr fs \<and>
           (\<exists>v \<in> set (take (unat w) (drop i xs)). v \<in> set fs)"
proof -
  let ?w = "unat w"
  let ?ys = "take (i + ?w) xs"
  have w: "0 < ?w" using assms(1) by (simp add: unat_gt_0)
  have len: "length ?ys = i + ?w" using assms(2) by simp
  then have "?w \<le> length ?ys" by simp
  from winnow_run_covers[OF w this]
  obtain v where v: "v \<in> set (drop (length ?ys - ?w) ?ys)" "v \<in> set (filtered (winnow_run ?w ?ys))"
    by blast
  have "drop (length ?ys - ?w) ?ys = take ?w (drop i xs)"
    using len by (simp add: drop_take)
  then have v1: "v \<in> set (take ?w (drop i xs))" using v(1) by simp
  have "set (filtered (winnow_run ?w ?ys)) \<subseteq> set (filtered (winnow_run ?w (?ys @ drop (i + ?w) xs)))"
    by (rule filtered_run_append)
  then have v2: "v \<in> set (filtered (winnow_run ?w xs))" using v(2) by auto
  have "winnowFilter w xs = Inr (filtered (winnow_run ?w xs))"
    using assms(1) by (simp add: winnowFilter_def)
  then show ?thesis using v1 v2 by blast
qed

theorem winnow_coverage_witness:
  "(3 :: 32 word) \<noteq> 0 \<and> 2 + unat (3 :: 32 word) \<le> length [5, 3, 3, 7, 1, 1, 1, 9 :: 64 word] \<and>
   (\<exists>fs. winnowFilter 3 [5, 3, 3, 7, 1, 1, 1, 9] = Inr fs \<and>
      (\<exists>v \<in> set (take (unat (3 :: 32 word)) (drop 2 [5, 3, 3, 7, 1, 1, 1, 9])). v \<in> set fs))"
  using winnow_coverage[of 3 2 "[5, 3, 3, 7, 1, 1, 1, 9]"] by simp

text \<open>
  The incremental branch of the source (\<open>min \<noteq> r\<close> after the write): it emits, and
  moves \<open>min\<close> to \<open>r\<close>, exactly when the hash at \<open>min\<close> is strictly smaller than the
  incoming one; on a tie or a smaller incoming hash it emits nothing and keeps \<open>min\<close>.
\<close>

lemma winnow_step_incremental:
  assumes "min_pos s \<noteq> (r_pos s + 1) mod w" "(r_pos s + 1) mod w < length (h_buf s)"
  shows "winnow_step w s x =
      (if h_buf s ! min_pos s < x
       then \<lparr>h_buf = (h_buf s)[(r_pos s + 1) mod w := x], r_pos = (r_pos s + 1) mod w,
             min_pos = (r_pos s + 1) mod w, filtered = filtered s @ [x]\<rparr>
       else \<lparr>h_buf = (h_buf s)[(r_pos s + 1) mod w := x], r_pos = (r_pos s + 1) mod w,
             min_pos = min_pos s, filtered = filtered s\<rparr>)"
  using assms by (simp add: winnow_step_def Let_def)

text \<open>
  Claim C1. On the golden input \<open>[5,3,3,7,1,1,1,9]\<close> with \<open>w = 3\<close> the source emits
  \<open>[3,7,1,9]\<close>: its incremental branch tests \<open>h[min] < h[r]\<close> and so fires when the
  incoming hash is strictly larger than the one at \<open>min\<close>. The algorithm as the
  specification states it (emission when the incoming hash is strictly smaller) yields
  \<open>[5,3,1,1]\<close> on the same input.
\<close>

theorem winnow_golden_sequence:
  "winnowFilter 3 [5, 3, 3, 7, 1, 1, 1, 9] = Inr [3, 7, 1, 9] \<and>
   winnowFilter_spec 3 [5, 3, 3, 7, 1, 1, 1, 9] = [5, 3, 1, 1]"
  by code_simp

section \<open>hashing.h, hashing.cpp: modPow and RollingHash\<close>

text \<open>
  The constants \<open>dolos::mod\<close> (named \<open>mod_p\<close> here, \<open>mod\<close> being HOL's remainder)
  and \<open>RollingHash::base\<close>, both \<open>uint64_t\<close>.
\<close>

definition mod_p :: "64 word" where
  "mod_p = 33554393"

definition base :: "64 word" where
  "base = 4194301"

text \<open>
  \<open>modPow<uint64_t>\<close>: the \<open>while (e > 1)\<close> loop on the variables \<open>y\<close>, \<open>b\<close> and
  \<open>e\<close>, then \<open>return b * y % mod\<close>. All arithmetic is that of \<open>uint64_t\<close>. The
  only caller passes the nonzero constant \<open>dolos::mod\<close> as modulus.
\<close>

function modPow_loop :: "64 word \<Rightarrow> 64 word \<Rightarrow> 64 word \<Rightarrow> 64 word \<Rightarrow> 64 word" where
  "modPow_loop y b e m =
     (if 1 < e
      then modPow_loop (if e AND 1 \<noteq> 0 then b * y mod m else y) (b * b mod m) (drop_bit 1 e) m
      else b * y mod m)"
  by pat_completeness auto
termination
proof (relation "measure (\<lambda>(y, b, e, m). unat e)")
  show "wf (measure (\<lambda>(y, b, e, m). unat e))" by simp
next
  fix y b e m :: "64 word"
  assume "1 < e"
  then have "0 < unat e" by (simp add: word_less_nat_alt)
  then have "unat e div 2 < unat e" by simp
  then show "((if e AND 1 \<noteq> 0 then b * y mod m else y, b * b mod m, drop_bit 1 e, m), (y, b, e, m))
       \<in> measure (\<lambda>(y, b, e, m). unat e)"
    by (simp add: unat_drop_bit_eq drop_bit_eq_div unat_div)
qed

definition modPow :: "64 word \<Rightarrow> 64 word \<Rightarrow> 64 word \<Rightarrow> 64 word" where
  "modPow b e m = modPow_loop 1 b e m"



text \<open>
  \<open>struct RollingHash\<close>. Its members \<open>k\<close>, \<open>max_base\<close>, \<open>hash\<close>, \<open>i\<close> and
  \<open>memory\<close> carry the prefix \<open>rh_\<close>.
\<close>

record RollingHash =
  rh_k :: "64 word"
  rh_max_base :: "64 word"
  rh_hash :: "64 word"
  rh_i :: "64 word"
  rh_memory :: "64 word list"

text \<open>The constructor \<open>RollingHash(k)\<close>.\<close>

definition RollingHash_init :: "64 word \<Rightarrow> RollingHash" where
  "RollingHash_init k =
     \<lparr>rh_k = k, rh_max_base = mod_p - modPow base k mod_p, rh_hash = 0, rh_i = 0,
      rh_memory = replicate (unat k) 0\<rparr>"

text \<open>
  \<open>RollingHash::operator()(tok)\<close>: the returned hash and the updated object. With
  \<open>k = 0\<close> the vector \<open>memory\<close> is empty, so \<open>memory[i]\<close> reads out of bounds and
  \<open>++i % k\<close> divides by zero.
\<close>

definition RollingHash_call :: "RollingHash \<Rightarrow> 64 word \<Rightarrow> error + (64 word \<times> RollingHash)" where
  "RollingHash_call s tok =
     (if rh_k s = 0 \<or> length (rh_memory s) \<le> unat (rh_i s) then Inl UndefinedBehaviour
      else
        (let hash = (base * rh_hash s + tok + rh_max_base s * rh_memory s ! unat (rh_i s)) mod mod_p
         in Inr (hash,
                 s\<lparr>rh_hash := hash,
                   rh_memory := (rh_memory s)[unat (rh_i s) := tok],
                   rh_i := (rh_i s + 1) mod rh_k s\<rparr>)))"

text \<open>Successive calls of \<open>operator()\<close> on a sequence of tokens: the hashes and the final object.\<close>

fun RollingHash_feed :: "RollingHash \<Rightarrow> 64 word list \<Rightarrow> error + (64 word list \<times> RollingHash)" where
  "RollingHash_feed s [] = Inr ([], s)"
| "RollingHash_feed s (t # ts) =
     (case RollingHash_call s t of
        Inl e \<Rightarrow> Inl e
      | Inr (v, s') \<Rightarrow>
          (case RollingHash_feed s' ts of
             Inl e \<Rightarrow> Inl e
           | Inr (vs, s'') \<Rightarrow> Inr (v # vs, s'')))"

text \<open>
  The range from \<open>RollingHashIterator(k, tokens.begin())\<close> to
  \<open>RollingHashIterator(k, tokens.end())\<close> as \<open>winnowFilter\<close> reads it: each position is
  dereferenced once, in order, and \<open>operator*\<close> calls \<open>hash(*it)\<close> on the
  \<open>uint16_t\<close> token widened to \<open>uint64_t\<close>.
\<close>

definition RollingHashIterator_range :: "32 word \<Rightarrow> 16 word list \<Rightarrow> error + 64 word list" where
  "RollingHashIterator_range k tokens =
     (case RollingHash_feed (RollingHash_init (ucast k)) (map ucast tokens) of
        Inl e \<Rightarrow> Inl e
      | Inr (vs, s) \<Rightarrow> Inr vs)"

text \<open>
  The state of a \<open>RollingHash(k)\<close> after the 16-bit tokens \<open>toks\<close> were pushed: the
  cursor is \<open>length toks mod k\<close>, the hash is below the modulus, token \<open>j\<close> sits at
  position \<open>j mod k\<close> while it is among the last \<open>k\<close>, and the slots not yet written
  hold \<open>0\<close>.
\<close>

definition RollingHash_inv :: "64 word \<Rightarrow> 16 word list \<Rightarrow> RollingHash \<Rightarrow> bool" where
  "RollingHash_inv k toks s \<longleftrightarrow>
     rh_k s = k \<and> rh_max_base s = mod_p - modPow base k mod_p \<and>
     length (rh_memory s) = unat k \<and> unat (rh_i s) = length toks mod unat k \<and>
     rh_hash s < mod_p \<and>
     (\<forall>j < length toks. length toks \<le> j + unat k \<longrightarrow> rh_memory s ! (j mod unat k) = ucast (toks ! j)) \<and>
     (\<forall>p < unat k. length toks \<le> p \<longrightarrow> rh_memory s ! p = 0)"


section \<open>Properties of modPow and RollingHash\<close>

lemma modPow_loop_correct:
  assumes "1 \<le> e" "unat b < unat m" "unat y < unat m" "unat m < 2 ^ 32"
  shows "unat (modPow_loop y b e m) = (unat b ^ unat e * unat y) mod unat m"
  using assms
proof (induction y b e m rule: modPow_loop.induct)
  case (1 y b e m)
  have mpos: "0 < unat m" using "1.prems" by simp
  have lt32: "unat b < 2 ^ 32" "unat y < 2 ^ 32" using "1.prems" by simp_all
  have "unat b * unat y < 2 ^ 32 * 2 ^ 32"
    using lt32 by (intro mult_strict_mono) simp_all
  then have by_eq: "unat (b * y) = unat b * unat y"
    by (simp add: unat_mult_lem [symmetric])
  have "unat b * unat b < 2 ^ 32 * 2 ^ 32"
    using lt32 by (intro mult_strict_mono) simp_all
  then have bb_eq: "unat (b * b) = unat b * unat b"
    by (simp add: unat_mult_lem [symmetric])
  show ?case
  proof (cases "1 < e")
    case False
    then have "e = 1" using "1.prems"(1) by simp
    then show ?thesis
      by (subst modPow_loop.simps) (simp add: unat_mod by_eq)
  next
    case True
    let ?y = "if e AND 1 \<noteq> 0 then b * y mod m else y"
    let ?b = "b * b mod m"
    let ?e = "drop_bit 1 e"
    have e2: "2 \<le> unat e" using True by (simp add: word_less_nat_alt)
    have ue: "unat ?e = unat e div 2" by (simp add: unat_drop_bit_eq drop_bit_eq_div unat_div)
    then have "1 \<le> unat ?e" using e2 by simp
    then have e1: "1 \<le> ?e" by (simp add: word_le_nat_alt)
    have ub: "unat ?b = (unat b * unat b) mod unat m" by (simp add: unat_mod bb_eq)
    then have b1: "unat ?b < unat m" using mpos by simp
    have y1: "unat ?y < unat m" using mpos "1.prems"(3) by (simp add: unat_mod by_eq)
    have IH: "unat (modPow_loop ?y ?b ?e m) = (unat ?b ^ unat ?e * unat ?y) mod unat m"
      using "1.IH"[OF True e1 b1 y1 "1.prems"(4)] .
    have odd_iff: "e AND 1 \<noteq> 0 \<longleftrightarrow> odd (unat e)"
    proof -
      have "e AND 1 = e mod 2" by (rule and_one_eq)
      moreover have "(e mod 2 = 0) = (unat (e mod 2) = 0)" by (simp only: unat_eq_zero)
      moreover have "unat (e mod 2) = unat e mod 2" by (simp add: unat_mod)
      ultimately have "e AND 1 \<noteq> 0 \<longleftrightarrow> unat e mod 2 \<noteq> 0" by simp
      then show ?thesis by presburger
    qed
    define q where "q = unat e div 2"
    have "(unat ?b ^ unat ?e * unat ?y) mod unat m = (unat b ^ unat e * unat y) mod unat m"
    proof (cases "odd (unat e)")
      case True
      then have ey: "unat ?y = (unat b * unat y) mod unat m"
        using odd_iff by (simp add: unat_mod by_eq)
      have eq: "unat e = 2 * q + 1" unfolding q_def using True by presburger
      have "(unat ?b ^ unat ?e * unat ?y) mod unat m
          = (((unat b * unat b) mod unat m) ^ q * ((unat b * unat y) mod unat m)) mod unat m"
        by (simp only: ub ue ey q_def)
      also have "\<dots> = ((unat b * unat b) ^ q * (unat b * unat y)) mod unat m"
        by (rule mod_mult_cong) (simp_all only: power_mod mod_mod_trivial)
      also have "(unat b * unat b) ^ q * (unat b * unat y) = unat b ^ (2 * q + 1) * unat y"
        by (simp add: power_mult power2_eq_square mult.assoc)
      finally show ?thesis by (simp only: eq)
    next
      case False
      then have ey: "unat ?y = unat y" using odd_iff by simp
      have eq: "unat e = 2 * q" unfolding q_def using False by presburger
      have "(unat ?b ^ unat ?e * unat ?y) mod unat m
          = (((unat b * unat b) mod unat m) ^ q * unat y) mod unat m"
        by (simp only: ub ue ey q_def)
      also have "\<dots> = ((unat b * unat b) ^ q * unat y) mod unat m"
        by (rule mod_mult_cong) (simp_all only: power_mod mod_mod_trivial)
      also have "(unat b * unat b) ^ q * unat y = unat b ^ (2 * q) * unat y"
        by (simp add: power_mult power2_eq_square)
      finally show ?thesis by (simp only: eq)
    qed
    then show ?thesis
      using IH True by (subst modPow_loop.simps) simp
  qed
qed

lemma modPow_correct:
  "k \<noteq> 0 \<Longrightarrow> unat (modPow base k mod_p) = 4194301 ^ unat k mod 33554393"
proof -
  assume "k \<noteq> 0"
  then have "1 \<le> k" by (simp add: word_le_nat_alt unat_gt_0 Suc_leI)
  then have "unat (modPow_loop 1 base k mod_p) = (unat base ^ unat k * unat (1 :: 64 word)) mod unat mod_p"
    by (rule modPow_loop_correct) (simp_all add: base_def mod_p_def)
  then show ?thesis by (simp add: modPow_def base_def mod_p_def)
qed

lemma mod_neq_in_window:
  assumes "j < n" "n < j + (w::nat)"
  shows "j mod w \<noteq> n mod w"
  using mod_Suc_neq[OF assms] by (metis mod_Suc_eq)

lemma RollingHash_inv_init: "k \<noteq> 0 \<Longrightarrow> RollingHash_inv k [] (RollingHash_init k)"
  by (simp add: RollingHash_inv_def RollingHash_init_def mod_p_def)

lemma RollingHash_call_less: "RollingHash_call s tok = Inr (v, s') \<Longrightarrow> v < mod_p"
  by (auto simp: RollingHash_call_def Let_def mod_p_def word_mod_less_divisor split: if_splits)

lemma RollingHash_oldest:
  assumes "RollingHash_inv k toks s" "k \<noteq> 0"
  shows "rh_memory s ! unat (rh_i s) =
           (if length toks < unat k then 0 else ucast (toks ! (length toks - unat k)))"
proof (cases "length toks < unat k")
  case True
  then show ?thesis using assms by (simp add: RollingHash_inv_def)
next
  case False
  let ?j = "length toks - unat k"
  have k: "0 < unat k" using assms(2) by (simp add: unat_gt_0)
  have "?j < length toks" "length toks \<le> ?j + unat k" using False k by simp_all
  then have "rh_memory s ! (?j mod unat k) = ucast (toks ! ?j)"
    using assms(1) by (simp add: RollingHash_inv_def)
  moreover have "?j mod unat k = length toks mod unat k"
    using False by (simp add: le_mod_geq)
  ultimately show ?thesis using False assms(1) by (simp add: RollingHash_inv_def)
qed

lemma power_mod_nonzero:
  assumes inv: "(a * x) mod p = 1" and p: "1 < (p::nat)"
  shows "a ^ n mod p \<noteq> 0"
proof
  assume z: "a ^ n mod p = 0"
  have "(a * x) ^ n mod p = ((a * x) mod p) ^ n mod p" by (simp only: power_mod)
  also have "\<dots> = 1" using inv p by simp
  finally have one: "(a ^ n * x ^ n) mod p = 1" by (simp only: power_mult_distrib)
  have "(a ^ n * x ^ n) mod p = ((a ^ n mod p) * x ^ n) mod p" by (simp only: mod_mult_left_eq)
  also have "\<dots> = 0" using z by simp
  finally show False using one by simp
qed

lemma max_base_value:
  assumes "k \<noteq> 0"
  shows "unat (mod_p - modPow base k mod_p) = (33554393 - 4194301 ^ unat k mod 33554393) mod 33554393"
proof -
  let ?r = "4194301 ^ unat k mod (33554393::nat)"
  have mp: "unat (modPow base k mod_p) = ?r" using assms by (rule modPow_correct)
  have lt: "?r < 33554393" by simp
  have "(4194301 * 31317434) mod (33554393::nat) = 1" by simp
  then have "?r \<noteq> 0" by (rule power_mod_nonzero) simp
  then have nz: "0 < ?r" by simp
  have "modPow base k mod_p \<le> mod_p"
    using mp lt by (simp add: word_le_nat_alt mod_p_def)
  then have "unat (mod_p - modPow base k mod_p) = unat mod_p - unat (modPow base k mod_p)"
    by (rule unat_sub)
  also have "\<dots> = 33554393 - ?r" using mp by (simp add: mod_p_def)
  also have "\<dots> = (33554393 - ?r) mod 33554393" using nz by simp
  finally show ?thesis .
qed

lemma unat_16_bound: "unat (t :: 16 word) < 65536"
  using unsigned_less[of t, where 'a = nat] by simp

lemma unat_ucast_16_64: "unat (ucast (t :: 16 word) :: 64 word) = unat t"
proof -
  have "unat t < 2 ^ 64" using unat_16_bound[of t] by simp
  then show ?thesis by (simp add: unsigned_ucast_eq take_bit_nat_eq_self)
qed

lemma RollingHash_call_step:
  fixes t :: "16 word"
  assumes inv: "RollingHash_inv k toks s" and k: "k \<noteq> 0"
  shows "\<exists>v s'. RollingHash_call s (ucast t) = Inr (v, s') \<and>
           RollingHash_inv k (toks @ [t]) s' \<and>
           unat v = (4194301 * unat (rh_hash s) + unat t +
                     (33554393 - 4194301 ^ unat k mod 33554393) mod 33554393 *
                       unat (rh_memory s ! unat (rh_i s))) mod 33554393 \<and>
           rh_hash s' = v \<and>
           rh_memory s' = (rh_memory s)[unat (rh_i s) := ucast t] \<and>
           unat (rh_i s') = (unat (rh_i s) + 1) mod unat k"
proof -
  let ?n = "length toks"
  let ?i = "unat (rh_i s)"
  let ?old = "rh_memory s ! ?i"
  let ?M = "(33554393 - 4194301 ^ unat k mod 33554393) mod (33554393::nat)"
  let ?v = "(base * rh_hash s + ucast t + rh_max_base s * ?old) mod mod_p"
  let ?s' = "s\<lparr>rh_hash := ?v, rh_memory := (rh_memory s)[?i := ucast t],
               rh_i := (rh_i s + 1) mod rh_k s\<rparr>"
  have kpos: "0 < unat k" using k by (simp add: unat_gt_0)
  from inv have rk: "rh_k s = k" and mb: "rh_max_base s = mod_p - modPow base k mod_p"
    and len: "length (rh_memory s) = unat k" and i: "?i = ?n mod unat k"
    and h: "rh_hash s < mod_p"
    and buf: "\<And>j. j < ?n \<Longrightarrow> ?n \<le> j + unat k \<Longrightarrow> rh_memory s ! (j mod unat k) = ucast (toks ! j)"
    and fresh: "\<And>p. p < unat k \<Longrightarrow> ?n \<le> p \<Longrightarrow> rh_memory s ! p = 0"
    by (auto simp: RollingHash_inv_def)
  have ilt: "?i < unat k" using i kpos by simp
  have call: "RollingHash_call s (ucast t) = Inr (?v, ?s')"
    using k rk len ilt by (simp add: RollingHash_call_def Let_def)
  have old: "?old = (if ?n < unat k then 0 else ucast (toks ! (?n - unat k)))"
    using inv k by (rule RollingHash_oldest)
  have uold: "unat ?old \<le> 65535"
    using unat_16_bound[of "toks ! (?n - unat k)"] by (simp add: old unat_ucast_16_64)
  have umb: "unat (rh_max_base s) = ?M" unfolding mb using k by (rule max_base_value)
  have uM: "?M \<le> 33554392"
  proof -
    have "?M < 33554393" by (rule mod_less_divisor) simp
    then show ?thesis by linarith
  qed
  have uh: "unat (rh_hash s) \<le> 33554392"
    using h by (simp add: word_less_nat_alt mod_p_def)
  have ut: "unat t \<le> 65535" using unat_16_bound[of t] by simp
  have pa: "4194301 * unat (rh_hash s) \<le> 4194301 * 33554392"
    using uh by simp
  have pc: "unat (rh_max_base s) * unat ?old \<le> 33554392 * 65535"
    unfolding umb using uM uold by (rule mult_le_mono)
  have ua: "unat (base * rh_hash s) = 4194301 * unat (rh_hash s)"
  proof -
    have "unat base * unat (rh_hash s) < 2 ^ LENGTH(64)" using pa by (simp add: base_def)
    then have "unat (base * rh_hash s) = unat base * unat (rh_hash s)"
      by (simp only: unat_mult_lem)
    then show ?thesis by (simp add: base_def)
  qed
  have uc: "unat (rh_max_base s * ?old) = ?M * unat ?old"
  proof -
    have "unat (rh_max_base s) * unat ?old < 2 ^ LENGTH(64)" using pc by simp
    then have "unat (rh_max_base s * ?old) = unat (rh_max_base s) * unat ?old"
      by (simp only: unat_mult_lem)
    then show ?thesis by (simp only: umb)
  qed
  have uab: "unat (base * rh_hash s + ucast t) = 4194301 * unat (rh_hash s) + unat t"
  proof -
    have "unat (base * rh_hash s) + unat (ucast t :: 64 word) < 2 ^ LENGTH(64)"
      using pa ut by (simp add: ua unat_ucast_16_64)
    then have "unat (base * rh_hash s + ucast t) = unat (base * rh_hash s) + unat (ucast t :: 64 word)"
      by (simp only: unat_add_lem)
    then show ?thesis by (simp only: ua unat_ucast_16_64)
  qed
  have uabc: "unat (base * rh_hash s + ucast t + rh_max_base s * ?old)
                = 4194301 * unat (rh_hash s) + unat t + ?M * unat ?old"
  proof -
    have "?M * unat ?old \<le> 33554392 * 65535" using pc by (simp only: umb)
    then have "unat (base * rh_hash s + ucast t) + unat (rh_max_base s * ?old) < 2 ^ LENGTH(64)"
      using uh ut by (simp add: uab uc)
    then have "unat (base * rh_hash s + ucast t + rh_max_base s * ?old)
        = unat (base * rh_hash s + ucast t) + unat (rh_max_base s * ?old)"
      by (simp only: unat_add_lem)
    then show ?thesis by (simp only: uab uc)
  qed
  have uv: "unat ?v = (4194301 * unat (rh_hash s) + unat t + ?M * unat ?old) mod 33554393"
    by (simp add: unat_mod uabc mod_p_def)
  have vlt: "?v < mod_p" by (simp add: mod_p_def word_mod_less_divisor)
  have ui1: "unat (rh_i s + 1) = ?i + 1"
  proof -
    have "unat k < 2 ^ LENGTH(64)" by (rule unsigned_less)
    then have "unat (rh_i s) + unat (1 :: 64 word) < 2 ^ LENGTH(64)" using ilt by simp
    then have "unat (rh_i s + 1) = unat (rh_i s) + unat (1 :: 64 word)"
      by (simp only: unat_add_lem)
    then show ?thesis by simp
  qed
  have ui': "unat ((rh_i s + 1) mod rh_k s) = (?i + 1) mod unat k"
    by (simp add: unat_mod ui1 rk)
  then have ui'': "unat ((rh_i s + 1) mod rh_k s) = length (toks @ [t]) mod unat k"
    using i by (simp add: mod_Suc_eq)
  have buf': "(rh_memory s)[?i := ucast t] ! (j mod unat k) = ucast ((toks @ [t]) ! j)"
    if "j < Suc ?n" "Suc ?n \<le> j + unat k" for j
  proof (cases "j = ?n")
    case True
    then show ?thesis using i ilt len by simp
  next
    case False
    with that have jn: "j < ?n" "?n < j + unat k" by auto
    then have "j mod unat k \<noteq> ?i" unfolding i by (rule mod_neq_in_window)
    then have "(rh_memory s)[?i := ucast t] ! (j mod unat k) = rh_memory s ! (j mod unat k)"
      by simp
    also have "\<dots> = ucast (toks ! j)" using buf jn by simp
    finally show ?thesis using jn by (simp add: nth_append)
  qed
  have fresh': "(rh_memory s)[?i := ucast t] ! p = 0" if "p < unat k" "Suc ?n \<le> p" for p
  proof -
    have "?n < unat k" using that by simp
    then have "?i = ?n" using i by simp
    then have "p \<noteq> ?i" using that by simp
    then show ?thesis using fresh that by simp
  qed
  have inv': "RollingHash_inv k (toks @ [t]) ?s'"
    unfolding RollingHash_inv_def using rk mb len ui'' vlt buf' fresh' by simp
  show ?thesis
    using call inv' uv ui' rk by simp
qed

lemma RollingHash_feed_inv:
  fixes toks :: "16 word list"
  assumes "RollingHash_inv k pre s" "k \<noteq> 0"
  shows "\<exists>vs s'. RollingHash_feed s (map ucast toks) = Inr (vs, s') \<and>
           RollingHash_inv k (pre @ toks) s' \<and> length vs = length toks"
  using assms(1)
proof (induction toks arbitrary: pre s)
  case Nil
  then show ?case by simp
next
  case (Cons t toks)
  from RollingHash_call_step[OF Cons.prems assms(2), of t]
  obtain v s1 where c: "RollingHash_call s (ucast t) = Inr (v, s1)"
    and i1: "RollingHash_inv k (pre @ [t]) s1" by blast
  from Cons.IH[OF i1]
  obtain vs s2 where f: "RollingHash_feed s1 (map ucast toks) = Inr (vs, s2)"
    and i2: "RollingHash_inv k ((pre @ [t]) @ toks) s2" and l: "length vs = length toks" by blast
  show ?case using c f i2 l by simp
qed

text \<open>
  Claim C5. For every \<open>k \<ge> 1\<close>, after any sequence \<open>toks\<close> of token codes has been
  pushed into a fresh \<open>RollingHash(k)\<close>, the call \<open>operator()(tok)\<close> returns
  \<open>(b * h + tok + max_base * oldest) mod p\<close> computed without wrap-around, where \<open>h\<close>
  is the previous hash, \<open>oldest\<close> is the entry at the cursor (\<open>0\<close> before \<open>k\<close> tokens
  were pushed, the token pushed \<open>k\<close> calls ago afterwards), \<open>p = 33554393\<close>,
  \<open>b = 4194301\<close> and \<open>max_base = (p - b^k mod p) mod p\<close>; it stores the hash, writes
  \<open>tok\<close> at the cursor and advances the cursor modulo \<open>k\<close>.
\<close>

theorem RollingHash_call_formula:
  fixes toks :: "16 word list" and tok :: "16 word"
  assumes "k \<noteq> 0"
  shows "\<exists>vs s. RollingHash_feed (RollingHash_init k) (map ucast toks) = Inr (vs, s) \<and>
           (\<exists>v s'. RollingHash_call s (ucast tok) = Inr (v, s') \<and>
              unat v = (4194301 * unat (rh_hash s) + unat tok +
                        (33554393 - 4194301 ^ unat k mod 33554393) mod 33554393 *
                          (if length toks < unat k then 0
                           else unat (toks ! (length toks - unat k)))) mod 33554393 \<and>
              rh_memory s ! unat (rh_i s) =
                (if length toks < unat k then 0 else ucast (toks ! (length toks - unat k))) \<and>
              unat (rh_max_base s) = (33554393 - 4194301 ^ unat k mod 33554393) mod 33554393 \<and>
              rh_hash s' = v \<and>
              rh_memory s' = (rh_memory s)[unat (rh_i s) := ucast tok] \<and>
              unat (rh_i s') = (unat (rh_i s) + 1) mod unat k)"
proof -
  from RollingHash_feed_inv[OF RollingHash_inv_init[OF assms] assms, of toks]
  obtain vs s where f: "RollingHash_feed (RollingHash_init k) (map ucast toks) = Inr (vs, s)"
    and inv: "RollingHash_inv k toks s" by auto
  from RollingHash_call_step[OF inv assms, of tok]
  obtain v s' where c: "RollingHash_call s (ucast tok) = Inr (v, s')"
    and v: "unat v = (4194301 * unat (rh_hash s) + unat tok +
                     (33554393 - 4194301 ^ unat k mod 33554393) mod 33554393 *
                       unat (rh_memory s ! unat (rh_i s))) mod 33554393"
    and rest: "rh_hash s' = v" "rh_memory s' = (rh_memory s)[unat (rh_i s) := ucast tok]"
      "unat (rh_i s') = (unat (rh_i s) + 1) mod unat k" by blast
  have old: "rh_memory s ! unat (rh_i s) =
      (if length toks < unat k then 0 else ucast (toks ! (length toks - unat k)))"
    using inv assms by (rule RollingHash_oldest)
  have uold: "unat (rh_memory s ! unat (rh_i s)) =
      (if length toks < unat k then 0 else unat (toks ! (length toks - unat k)))"
    by (simp add: old unat_ucast_16_64)
  have mb: "unat (rh_max_base s) = (33554393 - 4194301 ^ unat k mod 33554393) mod 33554393"
    using inv max_base_value[OF assms] by (simp add: RollingHash_inv_def)
  show ?thesis
    using f c v rest old mb unfolding uold by blast
qed

theorem RollingHash_call_formula_witness:
  "(3 :: 64 word) \<noteq> 0 \<and>
   RollingHash_feed (RollingHash_init 3) (map ucast [1, 2, 3, 4 :: 16 word]) =
     Inr ([1, 4194303, 3670022, 3145741],
          \<lparr>rh_k = 3, rh_max_base = 4653044, rh_hash = 3145741, rh_i = 1, rh_memory = [4, 2, 3]\<rparr>) \<and>
   RollingHash_call
       \<lparr>rh_k = 3, rh_max_base = 4653044, rh_hash = 3145741, rh_i = 1, rh_memory = [4, 2, 3]\<rparr>
       (ucast (5 :: 16 word)) =
     Inr (2621460,
          \<lparr>rh_k = 3, rh_max_base = 4653044, rh_hash = 2621460, rh_i = 2, rh_memory = [4, 5, 3]\<rparr>) \<and>
   (2621460 :: nat) = (4194301 * 3145741 + 5 + (33554393 - 4194301 ^ 3 mod 33554393) mod 33554393 * 2)
       mod 33554393"
proof -
  have r: "replicate (3 :: nat) (0 :: 64 word) = [0, 0, 0]"
    by (simp add: numeral_3_eq_3)
  show ?thesis
    using RollingHash_call_formula[of 3 "[1, 2, 3, 4]" 5]
    by (simp add: RollingHash_init_def RollingHash_call_def modPow_def base_def mod_p_def r)
qed

section \<open>index.h, index.cpp: Index\<close>

text \<open>
  \<open>std::set<T>\<close> is an ordered container without duplicates: it is modelled by the
  ascending list of its elements, which is also the order in which the source iterates it.
  \<open>insert\<close> leaves the set alone when the element is present.
\<close>

definition set_insert :: "'a::linorder \<Rightarrow> 'a list \<Rightarrow> 'a list" where
  "set_insert x s = insort_insert x s"

text \<open>\<open>std::ranges::set_intersection\<close> on two ascending ranges, by the usual merge.\<close>

fun set_intersection :: "'a::linorder list \<Rightarrow> 'a list \<Rightarrow> 'a list" where
  "set_intersection [] ys = []"
| "set_intersection (x # xs) [] = []"
| "set_intersection (x # xs) (y # ys) =
     (if x < y then set_intersection xs (y # ys)
      else if y < x then set_intersection (x # xs) ys
      else x # set_intersection xs ys)"

text \<open>
  \<open>std::unordered_map<K, V>\<close> is modelled by an association list with distinct keys;
  \<open>find\<close>, \<open>contains\<close> and \<open>at\<close> are \<open>map_of\<close>, \<open>size\<close> is \<open>length\<close>, and the
  assignment \<open>m[k] = v\<close> is \<open>AList.update k v m\<close>, which overwrites in place or appends a
  new key. The iteration order of the real container is unspecified. Where a loop over a
  container only fills another container or a set, the order has no effect on the
  outcome as a map, and the model runs the loop in the order of the list. Where the order
  shows in a result, it is a parameter of the model (\<open>serialize\<close>) or the result is
  described up to order (\<open>matchTokens\<close>).

  Reading \<open>m[k]\<close> inserts a value-initialised entry when the key is absent.
\<close>

definition subscript :: "('k \<times> 'v) list \<Rightarrow> 'k \<Rightarrow> 'v \<Rightarrow> 'v \<times> ('k \<times> 'v) list" where
  "subscript m key dflt =
     (case map_of m key of
        Some v \<Rightarrow> (v, m)
      | None \<Rightarrow> (dflt, AList.update key dflt m))"

text \<open>\<open>m[key].insert(x)\<close> on a map of sets.\<close>

definition insert_at :: "'k \<Rightarrow> 'a::linorder \<Rightarrow> ('k \<times> 'a list) list \<Rightarrow> ('k \<times> 'a list) list" where
  "insert_at key x m = (case subscript m key [] of (s, m') \<Rightarrow> AList.update key (set_insert x s) m')"

record Pair =
  left :: string
  right :: string
  covered :: "32 word"
  leftTotal :: "32 word"
  rightTotal :: "32 word"

text \<open>\<open>struct Index\<close>; its members \<open>k\<close> and \<open>w\<close> are \<open>idx_k\<close> and \<open>idx_w\<close>.\<close>

record Index =
  index :: "(64 word \<times> 16 word list) list"
  groups :: "(16 word \<times> 64 word list) list"
  identifiers :: "(string \<times> 16 word) list"
  names :: "(16 word \<times> string) list"
  idx_k :: "16 word"
  idx_w :: "16 word"

text \<open>The constructor \<open>Index(k, w)\<close>.\<close>

definition Index_new :: "16 word \<Rightarrow> 16 word \<Rightarrow> Index" where
  "Index_new k w = \<lparr>index = [], groups = [], identifiers = [], names = [], idx_k = k, idx_w = w\<rparr>"

text \<open>
  The fingerprints of a token sequence, as \<open>addToGroup\<close> and \<open>matchTokens\<close> compute them:
  \<open>winnowFilter(w, begin, end, tokens.size() / w + 1)\<close> over the rolling hashes. The
  size estimate divides by \<open>w\<close>, so \<open>w = 0\<close> is undefined whatever the tokens are.
\<close>

definition fingerprints :: "16 word \<Rightarrow> 16 word \<Rightarrow> 16 word list \<Rightarrow> error + 64 word list" where
  "fingerprints k w tokens =
     (if w = 0 then Inl UndefinedBehaviour
      else
        (case RollingHashIterator_range (ucast k) tokens of
           Inl e \<Rightarrow> Inl e
         | Inr hashes \<Rightarrow> winnowFilter (ucast w) hashes))"

text \<open>The body of the loop of \<open>addToGroup\<close> over the fingerprints.\<close>

definition record_hash :: "16 word \<Rightarrow> Index \<Rightarrow> 64 word \<Rightarrow> Index" where
  "record_hash identifier idx hash =
     idx\<lparr>index := insert_at hash identifier (index idx),
         groups := insert_at identifier hash (groups idx)\<rparr>"

text \<open>
  The first half of \<open>addToGroup\<close>: the identifier of \<open>groupName\<close>, a new one being
  \<open>identifiers.size()\<close> converted to \<open>uint16_t\<close>.
\<close>

definition resolve :: "Index \<Rightarrow> string \<Rightarrow> 16 word \<times> Index" where
  "resolve idx groupName =
     (case map_of (identifiers idx) groupName of
        None \<Rightarrow>
          (let identifier = (of_nat (length (identifiers idx)) :: 16 word)
           in (identifier,
               idx\<lparr>identifiers := AList.update groupName identifier (identifiers idx),
                   names := AList.update identifier groupName (names idx)\<rparr>))
      | Some identifier \<Rightarrow> (identifier, idx))"

text \<open>
  \<open>Index::addToGroup\<close>. The tokenizer (tree-sitter) is outside the model: the function
  takes the token codes \<open>tokenize(sourceCode)\<close>.
\<close>

definition addToGroup :: "Index \<Rightarrow> string \<Rightarrow> 16 word list \<Rightarrow> error + Index" where
  "addToGroup idx groupName tokens =
     (case resolve idx groupName of (identifier, idx') \<Rightarrow>
        (case fingerprints (idx_k idx) (idx_w idx) tokens of
           Inl e \<Rightarrow> Inl e
         | Inr hashes \<Rightarrow> Inr (foldl (record_hash identifier) idx' hashes)))"

text \<open>A sequence of \<open>addToGroup\<close> calls; the first failure ends it.\<close>

fun addToGroup_all :: "Index \<Rightarrow> (string \<times> 16 word list) list \<Rightarrow> error + Index" where
  "addToGroup_all idx [] = Inr idx"
| "addToGroup_all idx ((groupName, tokens) # docs) =
     (case addToGroup idx groupName tokens of
        Inl e \<Rightarrow> Inl e
      | Inr idx' \<Rightarrow> addToGroup_all idx' docs)"

text \<open>
  \<open>Index::getPair\<close>, a non-const member: \<open>identifiers[a]\<close>, \<open>identifiers[b]\<close>,
  \<open>groups[x]\<close> and \<open>groups[y]\<close> are reads through \<open>operator[]\<close>. The function returns
  the pair and the index as it leaves it.
\<close>

definition getPair :: "Index \<Rightarrow> string \<Rightarrow> string \<Rightarrow> Pair \<times> Index" where
  "getPair idx a b =
     (case subscript (identifiers idx) a 0 of (x, ids1) \<Rightarrow>
      case subscript ids1 b 0 of (y, ids2) \<Rightarrow>
      case subscript (groups idx) x [] of (A, groups1) \<Rightarrow>
      case subscript groups1 y [] of (B, groups2) \<Rightarrow>
        (let unused = set_intersection A B;
             intersectionSize = (of_nat (length unused) :: 32 word)
         in (\<lparr>left = a, right = b, covered = intersectionSize,
              leftTotal = of_nat (length A), rightTotal = of_nat (length B)\<rparr>,
             idx\<lparr>identifiers := ids2, groups := groups2\<rparr>)))"

text \<open>\<open>sharedHashes[identifier] += 1\<close>.\<close>

definition increment :: "(16 word \<times> 32 word) list \<Rightarrow> 16 word \<Rightarrow> (16 word \<times> 32 word) list" where
  "increment sharedHashes identifier =
     (case subscript sharedHashes identifier 0 of (c, m) \<Rightarrow> AList.update identifier (c + 1) m)"

text \<open>The body of the loop of \<open>matchTokens\<close> over the fingerprints, on \<open>total\<close> and \<open>sharedHashes\<close>.\<close>

definition count_hash ::
  "Index \<Rightarrow> 32 word \<times> (16 word \<times> 32 word) list \<Rightarrow> 64 word \<Rightarrow> 32 word \<times> (16 word \<times> 32 word) list" where
  "count_hash idx acc hash =
     (case acc of (total', sharedHashes) \<Rightarrow>
        (total' + 1,
         case map_of (index idx) hash of
           None \<Rightarrow> sharedHashes
         | Some ids \<Rightarrow> foldl increment sharedHashes ids))"

text \<open>One \<open>pairs.emplace_back\<close>; \<open>names.at\<close> throws on an identifier without a name.\<close>

definition make_pair :: "Index \<Rightarrow> 32 word \<Rightarrow> 16 word \<times> 32 word \<Rightarrow> error + Pair" where
  "make_pair idx total' entry =
     (case entry of (identifier, count) \<Rightarrow>
        (case map_of (names idx) identifier of
           None \<Rightarrow> Inl OutOfRange
         | Some name \<Rightarrow>
             Inr \<lparr>left = ''external'', right = name, covered = count, leftTotal = total',
                  rightTotal = (case map_of (groups idx) identifier of
                                  Some g \<Rightarrow> of_nat (length g)
                                | None \<Rightarrow> 0)\<rparr>))"

text \<open>A loop that builds a vector and stops at the first exception.\<close>

fun collect :: "('a \<Rightarrow> error + 'b) \<Rightarrow> 'a list \<Rightarrow> error + 'b list" where
  "collect f [] = Inr []"
| "collect f (x # xs) =
     (case f x of
        Inl e \<Rightarrow> Inl e
      | Inr y \<Rightarrow> (case collect f xs of Inl e \<Rightarrow> Inl e | Inr ys \<Rightarrow> Inr (y # ys)))"

text \<open>
  \<open>Index::matchTokens\<close>, a const member. The result vector has one entry per key of
  \<open>sharedHashes\<close>, in the iteration order of that container, which is unspecified: the
  list the model returns is one arrangement of the entries, so only what does not depend
  on the arrangement carries over to the code.
\<close>

definition matchTokens :: "Index \<Rightarrow> 16 word list \<Rightarrow> error + Pair list" where
  "matchTokens idx tokens =
     (let sharedHashes0 = foldl (\<lambda>m entry. AList.update (snd entry) 0 m) [] (identifiers idx)
      in case fingerprints (idx_k idx) (idx_w idx) tokens of
           Inl e \<Rightarrow> Inl e
         | Inr hashes \<Rightarrow>
             (case foldl (count_hash idx) (0, sharedHashes0) hashes of
                (total', sharedHashes) \<Rightarrow> collect (make_pair idx total') sharedHashes))"


section \<open>Snapshots\<close>

text \<open>
  \<open>serialize\<close> and the constructor \<open>Index(const std::string &)\<close> go through
  \<open>boost::json\<close>, which is not part of the sources. The model stops at the JSON value:
  \<open>serialize\<close> yields the value whose text \<open>json::serialize\<close> prints, and the
  constructor starts from the value \<open>json::parse\<close> returns. A number is kept as the
  integer it denotes; after parsing, \<open>as_int64\<close> succeeds exactly on the numbers that
  fit \<open>int64_t\<close>.
\<close>

datatype json = JNumber int | JString string | JArray "json list" | JObject "(string \<times> json) list"

definition bind :: "error + 'a \<Rightarrow> ('a \<Rightarrow> error + 'b) \<Rightarrow> error + 'b" where
  "bind m f = (case m of Inl e \<Rightarrow> Inl e | Inr x \<Rightarrow> f x)"

fun as_object :: "json \<Rightarrow> error + (string \<times> json) list" where
  "as_object (JObject m) = Inr m"
| "as_object _ = Inl JsonError"

fun as_array :: "json \<Rightarrow> error + json list" where
  "as_array (JArray xs) = Inr xs"
| "as_array _ = Inl JsonError"

fun as_string :: "json \<Rightarrow> error + string" where
  "as_string (JString s) = Inr s"
| "as_string _ = Inl JsonError"

fun as_int64 :: "json \<Rightarrow> error + int" where
  "as_int64 (JNumber n) = (if - (2 ^ 63) \<le> n \<and> n < 2 ^ 63 then Inr n else Inl JsonError)"
| "as_int64 _ = Inl JsonError"

text \<open>\<open>json::object::at\<close> throws on a missing key.\<close>

definition at_key :: "(string \<times> json) list \<Rightarrow> string \<Rightarrow> error + json" where
  "at_key m key = (case map_of m key of None \<Rightarrow> Inl JsonError | Some v \<Rightarrow> Inr v)"

text \<open>\<open>json::array::operator[]\<close> is unchecked.\<close>

definition array_elem :: "json list \<Rightarrow> nat \<Rightarrow> error + json" where
  "array_elem arr i = (if i < length arr then Inr (arr ! i) else Inl UndefinedBehaviour)"

text \<open>A loop whose body may throw.\<close>

fun fold_err :: "('s \<Rightarrow> 'a \<Rightarrow> error + 's) \<Rightarrow> 's \<Rightarrow> 'a list \<Rightarrow> error + 's" where
  "fold_err f s [] = Inr s"
| "fold_err f s (x # xs) = (case f s x of Inl e \<Rightarrow> Inl e | Inr s' \<Rightarrow> fold_err f s' xs)"

text \<open>
  A sequence in which a range-for loop may visit a container: every entry once, in any
  order.
\<close>

definition iteration :: "('k \<times> 'v) list \<Rightarrow> ('k \<times> 'v) list \<Rightarrow> bool" where
  "iteration m visited \<longleftrightarrow> distinct (map fst visited) \<and> set visited = set m"

text \<open>
  \<open>Index::serialize\<close>, a const member. Its two loops visit \<open>identifiers\<close> and \<open>index\<close>
  in the iteration order of the containers, and the arrays of the snapshot are in that
  order. The order is unspecified, so it is a parameter here: \<open>serialize idx sIdentifiers
  sIndex\<close> is the value written when the first loop visits the entries \<open>sIdentifiers\<close>, an
  \<open>iteration\<close> of \<open>identifiers idx\<close>, and the second the entries \<open>sIndex\<close>, an
  \<open>iteration\<close> of \<open>index idx\<close>. The ids of one fingerprint are a \<open>std::set\<close> and
  are written in ascending order.
\<close>

definition serialize ::
  "Index \<Rightarrow> (string \<times> 16 word) list \<Rightarrow> (64 word \<times> 16 word list) list \<Rightarrow> json" where
  "serialize idx sIdentifiers sIndex =
     JObject
       [(''k'', JNumber (uint (idx_k idx))),
        (''w'', JNumber (uint (idx_w idx))),
        (''index'',
           JArray (map (\<lambda>(hash, ids). JArray [JNumber (uint hash), JArray (map (\<lambda>id. JNumber (uint id)) ids)])
                       sIndex)),
        (''identifiers'',
           JArray (map (\<lambda>(name, id). JArray [JString name, JNumber (uint id)]) sIdentifiers))]"

text \<open>The body of the loop over \<open>s.at("identifiers")\<close>.\<close>

definition load_identifier :: "Index \<Rightarrow> json \<Rightarrow> error + Index" where
  "load_identifier idx tmp =
     bind (as_array tmp) (\<lambda>arr.
     bind (array_elem arr 0) (\<lambda>j0.
     bind (as_string j0) (\<lambda>name.
     bind (array_elem arr 1) (\<lambda>j1.
     bind (as_int64 j1) (\<lambda>v.
       (let id = (word_of_int v :: 16 word)
        in Inr (idx\<lparr>identifiers := AList.update name id (identifiers idx),
                    names := AList.update id name (names idx)\<rparr>)))))))"

text \<open>The body of the inner loop over the ids of one fingerprint.\<close>

definition load_id :: "64 word \<Rightarrow> Index \<Rightarrow> json \<Rightarrow> error + Index" where
  "load_id hash idx tmp2 =
     bind (as_int64 tmp2) (\<lambda>v. Inr (record_hash (word_of_int v :: 16 word) idx hash))"

text \<open>
  The body of the loop over \<open>s.at("index")\<close>. The fingerprint is cast to
  \<open>uint32_t\<close> and widened again where it is used as a key and as a set element.
\<close>

definition load_entry :: "Index \<Rightarrow> json \<Rightarrow> error + Index" where
  "load_entry idx tmp =
     bind (as_array tmp) (\<lambda>arr.
     bind (array_elem arr 0) (\<lambda>j0.
     bind (as_int64 j0) (\<lambda>v.
       (let hash = (word_of_int v :: 32 word)
        in bind (array_elem arr 1) (\<lambda>j1.
           bind (as_array j1) (\<lambda>sIds.
             fold_err (load_id (ucast hash)) idx sIds))))))"

text \<open>The constructor \<open>Index(serialization)\<close>, from the parsed value.\<close>

definition Index_of_json :: "json \<Rightarrow> error + Index" where
  "Index_of_json j =
     bind (as_object j) (\<lambda>s.
     bind (at_key s ''k'') (\<lambda>jk.
     bind (as_int64 jk) (\<lambda>kv.
     bind (at_key s ''w'') (\<lambda>jw.
     bind (as_int64 jw) (\<lambda>wv.
     bind (at_key s ''identifiers'') (\<lambda>ji.
     bind (as_array ji) (\<lambda>sIdentifiers.
     bind (fold_err load_identifier
             \<lparr>index = [], groups = [], identifiers = [], names = [],
              idx_k = word_of_int kv, idx_w = word_of_int wv\<rparr> sIdentifiers) (\<lambda>idx.
     bind (at_key s ''index'') (\<lambda>jx.
     bind (as_array jx) (\<lambda>sIndex.
       fold_err load_entry idx sIndex))))))))))"

text \<open>
  Views of an index used to state its properties: the forward set of a document id and the
  inverted-map entry of a fingerprint (empty when the map has no such key), and the id
  that \<open>identifiers[a]\<close> reads (\<open>0\<close>, the value-initialised \<open>uint16_t\<close>, when \<open>a\<close> is
  not a key).
\<close>

definition forward_set :: "Index \<Rightarrow> 16 word \<Rightarrow> 64 word list" where
  "forward_set idx d = (case map_of (groups idx) d of None \<Rightarrow> [] | Some g \<Rightarrow> g)"

definition inverted :: "Index \<Rightarrow> 64 word \<Rightarrow> 16 word list" where
  "inverted idx F = (case map_of (index idx) F of None \<Rightarrow> [] | Some ids \<Rightarrow> ids)"

definition resolved :: "Index \<Rightarrow> string \<Rightarrow> 16 word" where
  "resolved idx a = (case map_of (identifiers idx) a of None \<Rightarrow> 0 | Some i \<Rightarrow> i)"

lemma subscript_fst: "fst (subscript m key d) = (case map_of m key of None \<Rightarrow> d | Some v \<Rightarrow> v)"
  by (simp add: subscript_def split: option.splits)

lemma subscript_map_of:
  "map_of (snd (subscript m key d)) = (case map_of m key of None \<Rightarrow> (map_of m)(key \<mapsto> d) | Some v \<Rightarrow> map_of m)"
  by (simp add: subscript_def update_conv' split: option.splits)

lemma subscript_present: "map_of m key = Some v \<Longrightarrow> subscript m key d = (v, m)"
  by (simp add: subscript_def)

lemma getPair_unfold:
  "getPair idx a b =
     (let x = fst (subscript (identifiers idx) a 0);
          ids1 = snd (subscript (identifiers idx) a 0);
          y = fst (subscript ids1 b 0);
          ids2 = snd (subscript ids1 b 0);
          A = fst (subscript (groups idx) x []);
          groups1 = snd (subscript (groups idx) x []);
          B = fst (subscript groups1 y []);
          groups2 = snd (subscript groups1 y [])
      in (\<lparr>left = a, right = b, covered = of_nat (length (set_intersection A B)),
           leftTotal = of_nat (length A), rightTotal = of_nat (length B)\<rparr>,
          idx\<lparr>identifiers := ids2, groups := groups2\<rparr>))"
  by (simp add: getPair_def Let_def split: prod.splits)

lemma getPair_x: "fst (subscript (identifiers idx) a 0) = resolved idx a"
  by (simp add: subscript_fst resolved_def)

lemma getPair_y:
  "fst (subscript (snd (subscript (identifiers idx) a 0)) b 0) = resolved idx b"
  by (simp add: subscript_fst subscript_map_of resolved_def split: option.splits)

lemma getPair_A: "fst (subscript (groups idx) x []) = forward_set idx x"
  by (simp add: subscript_fst forward_set_def)

lemma getPair_B: "fst (subscript (snd (subscript (groups idx) x [])) y []) = forward_set idx y"
  by (simp add: subscript_fst subscript_map_of forward_set_def split: option.splits)

text \<open>
  Claim C3, as amended. \<open>getPair\<close> has no failure: for every index and every pair of
  names it returns a result. A name that is not registered reads as id \<open>0\<close> and is
  entered into \<open>identifiers\<close> with that id, and the counts are those of the forward sets
  of the two ids read (empty where an id has none).
\<close>

theorem getPair_total:
  "fst (getPair idx a b) =
     \<lparr>left = a, right = b,
      covered = of_nat (length (set_intersection (forward_set idx (resolved idx a))
                                                (forward_set idx (resolved idx b)))),
      leftTotal = of_nat (length (forward_set idx (resolved idx a))),
      rightTotal = of_nat (length (forward_set idx (resolved idx b)))\<rparr> \<and>
   map_of (identifiers (snd (getPair idx a b))) a = Some (resolved idx a) \<and>
   map_of (identifiers (snd (getPair idx a b))) b = Some (resolved idx b)"
proof -
  have ids: "map_of (snd (subscript (snd (subscript (identifiers idx) a 0)) b 0)) a = Some (resolved idx a)"
    "map_of (snd (subscript (snd (subscript (identifiers idx) a 0)) b 0)) b = Some (resolved idx b)"
    by (auto simp: subscript_map_of resolved_def split: option.splits)
  show ?thesis
    unfolding getPair_unfold Let_def getPair_x getPair_y getPair_A getPair_B
    using ids by simp
qed

theorem getPair_unregistered_counterexample:
  "map_of (identifiers (Index_new 3 3)) ''a'' = None \<and>
   map_of (identifiers (Index_new 3 3)) ''b'' = None \<and>
   fst (getPair (Index_new 3 3) ''a'' ''b'') =
     \<lparr>left = ''a'', right = ''b'', covered = 0, leftTotal = 0, rightTotal = 0\<rparr>"
  by (simp add: getPair_def Index_new_def subscript_def)

text \<open>
  Claim C4, as amended. \<open>getPair\<close> never changes the inverted map, the id-to-name map,
  \<open>k\<close> or \<open>w\<close>, and the forward set of every id reads the same afterwards. In the
  name-to-id map it changes nothing but the entries of the two names asked for, which
  afterwards hold the ids read (the registered id, or \<open>0\<close> for a name that was not
  registered); the entry of every other name, present or absent, is as before. In the
  forward-set map it changes nothing but the entries of the two ids read, which afterwards
  hold the forward sets read (the set there was, or the empty set); the entry of every other
  id is as before. So \<open>identifiers\<close> is unchanged when both names are registered, and
  \<open>groups\<close> is unchanged when both ids read have an entry there.
\<close>

theorem getPair_frame:
  "index (snd (getPair idx a b)) = index idx \<and>
   names (snd (getPair idx a b)) = names idx \<and>
   idx_k (snd (getPair idx a b)) = idx_k idx \<and>
   idx_w (snd (getPair idx a b)) = idx_w idx \<and>
   (\<forall>d. forward_set (snd (getPair idx a b)) d = forward_set idx d) \<and>
   (\<forall>n. n \<noteq> a \<and> n \<noteq> b \<longrightarrow>
      map_of (identifiers (snd (getPair idx a b))) n = map_of (identifiers idx) n) \<and>
   map_of (identifiers (snd (getPair idx a b))) a = Some (resolved idx a) \<and>
   map_of (identifiers (snd (getPair idx a b))) b = Some (resolved idx b) \<and>
   (\<forall>d. d \<noteq> resolved idx a \<and> d \<noteq> resolved idx b \<longrightarrow>
      map_of (groups (snd (getPair idx a b))) d = map_of (groups idx) d) \<and>
   map_of (groups (snd (getPair idx a b))) (resolved idx a) =
     Some (forward_set idx (resolved idx a)) \<and>
   map_of (groups (snd (getPair idx a b))) (resolved idx b) =
     Some (forward_set idx (resolved idx b)) \<and>
   (map_of (identifiers idx) a \<noteq> None \<and> map_of (identifiers idx) b \<noteq> None \<longrightarrow>
      identifiers (snd (getPair idx a b)) = identifiers idx) \<and>
   (map_of (groups idx) (resolved idx a) \<noteq> None \<and> map_of (groups idx) (resolved idx b) \<noteq> None \<longrightarrow>
      groups (snd (getPair idx a b)) = groups idx)"
proof -
  have fs: "forward_set (snd (getPair idx a b)) d = forward_set idx d" for d
    unfolding getPair_unfold Let_def getPair_x getPair_y
    by (auto simp: forward_set_def subscript_map_of split: option.splits)
  have im: "map_of (identifiers (snd (getPair idx a b))) n =
      (if n = a \<or> n = b then Some (resolved idx n) else map_of (identifiers idx) n)" for n
    unfolding getPair_unfold Let_def
    by (auto simp: subscript_map_of resolved_def split: option.splits)
  have gm: "map_of (groups (snd (getPair idx a b))) d =
      (if d = resolved idx a \<or> d = resolved idx b then Some (forward_set idx d)
       else map_of (groups idx) d)" for d
    unfolding getPair_unfold Let_def getPair_x getPair_y
    by (auto simp: subscript_map_of forward_set_def split: option.splits)
  have ids: "identifiers (snd (getPair idx a b)) = identifiers idx"
    if "map_of (identifiers idx) a \<noteq> None" "map_of (identifiers idx) b \<noteq> None"
    using that unfolding getPair_unfold Let_def by (auto simp: subscript_def)
  have gs: "groups (snd (getPair idx a b)) = groups idx"
    if "map_of (groups idx) (resolved idx a) \<noteq> None" "map_of (groups idx) (resolved idx b) \<noteq> None"
    using that unfolding getPair_unfold Let_def getPair_x getPair_y by (auto simp: subscript_def)
  have rest: "index (snd (getPair idx a b)) = index idx \<and>
      names (snd (getPair idx a b)) = names idx \<and>
      idx_k (snd (getPair idx a b)) = idx_k idx \<and>
      idx_w (snd (getPair idx a b)) = idx_w idx"
    unfolding getPair_unfold Let_def by simp
  show ?thesis
    using fs im gm ids gs rest by simp
qed

theorem getPair_frame_witness:
  "map_of (identifiers \<lparr>index = [(5, [0, 1])], groups = [(0, [5]), (1, [5])],
            identifiers = [(''a'', 0), (''b'', 1)], names = [(0, ''a''), (1, ''b'')],
            idx_k = 3, idx_w = 3\<rparr>) ''a'' \<noteq> None \<and>
   map_of (identifiers \<lparr>index = [(5, [0, 1])], groups = [(0, [5]), (1, [5])],
            identifiers = [(''a'', 0), (''b'', 1)], names = [(0, ''a''), (1, ''b'')],
            idx_k = 3, idx_w = 3\<rparr>) ''b'' \<noteq> None \<and>
   map_of (groups \<lparr>index = [(5, [0, 1])], groups = [(0, [5]), (1, [5])],
            identifiers = [(''a'', 0), (''b'', 1)], names = [(0, ''a''), (1, ''b'')],
            idx_k = 3, idx_w = 3\<rparr>) (resolved \<lparr>index = [(5, [0, 1])], groups = [(0, [5]), (1, [5])],
            identifiers = [(''a'', 0), (''b'', 1)], names = [(0, ''a''), (1, ''b'')],
            idx_k = 3, idx_w = 3\<rparr> ''a'') \<noteq> None \<and>
   map_of (groups \<lparr>index = [(5, [0, 1])], groups = [(0, [5]), (1, [5])],
            identifiers = [(''a'', 0), (''b'', 1)], names = [(0, ''a''), (1, ''b'')],
            idx_k = 3, idx_w = 3\<rparr>) (resolved \<lparr>index = [(5, [0, 1])], groups = [(0, [5]), (1, [5])],
            identifiers = [(''a'', 0), (''b'', 1)], names = [(0, ''a''), (1, ''b'')],
            idx_k = 3, idx_w = 3\<rparr> ''b'') \<noteq> None \<and>
   ''c'' \<noteq> ''a'' \<and> ''c'' \<noteq> ''b'' \<and>
   map_of (identifiers (snd (getPair \<lparr>index = [(5, [0, 1])], groups = [(0, [5]), (1, [5])],
            identifiers = [(''a'', 0), (''b'', 1)], names = [(0, ''a''), (1, ''b'')],
            idx_k = 3, idx_w = 3\<rparr> ''a'' ''b''))) ''c'' = None \<and>
   2 \<noteq> resolved \<lparr>index = [(5, [0, 1])], groups = [(0, [5]), (1, [5])],
            identifiers = [(''a'', 0), (''b'', 1)], names = [(0, ''a''), (1, ''b'')],
            idx_k = 3, idx_w = 3\<rparr> ''a'' \<and>
   2 \<noteq> resolved \<lparr>index = [(5, [0, 1])], groups = [(0, [5]), (1, [5])],
            identifiers = [(''a'', 0), (''b'', 1)], names = [(0, ''a''), (1, ''b'')],
            idx_k = 3, idx_w = 3\<rparr> ''b'' \<and>
   map_of (groups (snd (getPair \<lparr>index = [(5, [0, 1])], groups = [(0, [5]), (1, [5])],
            identifiers = [(''a'', 0), (''b'', 1)], names = [(0, ''a''), (1, ''b'')],
            idx_k = 3, idx_w = 3\<rparr> ''a'' ''b''))) 2 = None \<and>
   getPair \<lparr>index = [(5, [0, 1])], groups = [(0, [5]), (1, [5])],
            identifiers = [(''a'', 0), (''b'', 1)], names = [(0, ''a''), (1, ''b'')],
            idx_k = 3, idx_w = 3\<rparr> ''a'' ''b'' =
     (\<lparr>left = ''a'', right = ''b'', covered = 1, leftTotal = 1, rightTotal = 1\<rparr>,
      \<lparr>index = [(5, [0, 1])], groups = [(0, [5]), (1, [5])],
            identifiers = [(''a'', 0), (''b'', 1)], names = [(0, ''a''), (1, ''b'')],
            idx_k = 3, idx_w = 3\<rparr>)"
  using getPair_frame[of "\<lparr>index = [(5, [0, 1])], groups = [(0, [5]), (1, [5])],
            identifiers = [(''a'', 0), (''b'', 1)], names = [(0, ''a''), (1, ''b'')],
            idx_k = 3, idx_w = 3\<rparr>" "''a''" "''b''"]
  by (simp add: getPair_def subscript_def resolved_def)

theorem getPair_mutates_counterexample:
  "snd (getPair (Index_new 3 3) ''a'' ''b'') =
     \<lparr>index = [], groups = [(0, [])], identifiers = [(''a'', 0), (''b'', 0)], names = [],
      idx_k = 3, idx_w = 3\<rparr> \<and>
   identifiers (snd (getPair (Index_new 3 3) ''a'' ''b'')) \<noteq> identifiers (Index_new 3 3) \<and>
   groups (snd (getPair (Index_new 3 3) ''a'' ''b'')) \<noteq> groups (Index_new 3 3)"
  by (simp add: getPair_def Index_new_def subscript_def)

section \<open>Properties of addToGroup\<close>

lemma set_set_insert: "set (set_insert x s) = insert x (set s)"
  by (simp add: set_insert_def set_insort_insert)

lemma map_of_insert_at:
  "map_of (insert_at key x m) =
     (map_of m)(key \<mapsto> set_insert x (case map_of m key of None \<Rightarrow> [] | Some s \<Rightarrow> s))"
  by (simp add: insert_at_def subscript_def update_conv' split: option.splits)

lemma inverted_record_hash:
  "inverted (record_hash i idx h) F = (if F = h then set_insert i (inverted idx h) else inverted idx F)"
  by (simp add: inverted_def record_hash_def map_of_insert_at)

lemma forward_set_record_hash:
  "forward_set (record_hash i idx h) d =
     (if d = i then set_insert h (forward_set idx i) else forward_set idx d)"
  by (simp add: forward_set_def record_hash_def map_of_insert_at)

lemma record_hash_frame [simp]:
  "identifiers (record_hash i idx h) = identifiers idx"
  "names (record_hash i idx h) = names idx"
  "idx_k (record_hash i idx h) = idx_k idx"
  "idx_w (record_hash i idx h) = idx_w idx"
  by (simp_all add: record_hash_def)

lemma foldl_record_hash_frame [simp]:
  "identifiers (foldl (record_hash i) idx fps) = identifiers idx"
  "names (foldl (record_hash i) idx fps) = names idx"
  "idx_k (foldl (record_hash i) idx fps) = idx_k idx"
  "idx_w (foldl (record_hash i) idx fps) = idx_w idx"
  by (induction fps arbitrary: idx) simp_all

lemma inverted_foldl_record_hash:
  "set (inverted (foldl (record_hash i) idx fps) F) =
     set (inverted idx F) \<union> (if F \<in> set fps then {i} else {})"
  by (induction fps arbitrary: idx) (auto simp: inverted_record_hash set_set_insert)

lemma forward_set_foldl_record_hash:
  "set (forward_set (foldl (record_hash i) idx fps) d) =
     set (forward_set idx d) \<union> (if d = i then set fps else {})"
  by (induction fps arbitrary: idx) (auto simp: forward_set_record_hash set_set_insert)

lemma resolve_views [simp]:
  "inverted (snd (resolve idx name)) F = inverted idx F"
  "forward_set (snd (resolve idx name)) d = forward_set idx d"
  "idx_k (snd (resolve idx name)) = idx_k idx"
  "idx_w (snd (resolve idx name)) = idx_w idx"
  by (simp_all add: resolve_def inverted_def forward_set_def Let_def split: option.splits)

lemma addToGroup_Inr:
  "addToGroup idx name toks = Inr idx' \<longleftrightarrow>
     (\<exists>fps. fingerprints (idx_k idx) (idx_w idx) toks = Inr fps \<and>
            idx' = foldl (record_hash (fst (resolve idx name))) (snd (resolve idx name)) fps)"
  by (auto simp: addToGroup_def split: prod.splits sum.splits)

text \<open>The two maps mirror each other.\<close>

definition mirror :: "Index \<Rightarrow> bool" where
  "mirror idx \<longleftrightarrow> (\<forall>F d. d \<in> set (inverted idx F) \<longleftrightarrow> F \<in> set (forward_set idx d))"

lemma mirror_new: "mirror (Index_new k w)"
  by (simp add: mirror_def Index_new_def inverted_def forward_set_def)

lemma mirror_addToGroup:
  assumes "mirror idx" "addToGroup idx name toks = Inr idx'"
  shows "mirror idx'"
proof -
  from assms(2) obtain fps where
    idx': "idx' = foldl (record_hash (fst (resolve idx name))) (snd (resolve idx name)) fps"
    unfolding addToGroup_Inr by blast
  show ?thesis
    using assms(1) unfolding mirror_def idx'
    by (auto simp: inverted_foldl_record_hash forward_set_foldl_record_hash split: if_splits)
qed

lemma mirror_addToGroup_all:
  "mirror idx \<Longrightarrow> addToGroup_all idx docs = Inr idx' \<Longrightarrow> mirror idx'"
proof (induction docs arbitrary: idx)
  case Nil
  then show ?case by simp
next
  case (Cons doc docs)
  obtain name toks where doc: "doc = (name, toks)" by (cases doc)
  from Cons.prems(2) obtain idx1 where a: "addToGroup idx name toks = Inr idx1"
    and r: "addToGroup_all idx1 docs = Inr idx'"
    by (auto simp: doc split: sum.splits)
  from mirror_addToGroup[OF Cons.prems(1) a] r show ?case by (rule Cons.IH)
qed

lemma unat_ucast_16_32: "unat (ucast (t :: 16 word) :: 32 word) = unat t"
proof -
  have "unat t < 2 ^ 32" using unat_16_bound[of t] by simp
  then show ?thesis by (simp add: unsigned_ucast_eq take_bit_nat_eq_self)
qed

lemma unat_ucast_32_64: "unat (ucast (t :: 32 word) :: 64 word) = unat t"
proof -
  have "unat t < 2 ^ 32" using unsigned_less[of t, where 'a = nat] by simp
  then have "unat t < 2 ^ 64" by simp
  then show ?thesis by (simp add: unsigned_ucast_eq take_bit_nat_eq_self)
qed

lemma ucast_16_32_nonzero: "(k :: 16 word) \<noteq> 0 \<Longrightarrow> (ucast k :: 32 word) \<noteq> 0"
  by (metis unat_ucast_16_32 unat_eq_zero)

lemma ucast_32_64_nonzero: "(k :: 32 word) \<noteq> 0 \<Longrightarrow> (ucast k :: 64 word) \<noteq> 0"
  by (metis unat_ucast_32_64 unat_eq_zero)

lemma RollingHash_feed_less:
  "RollingHash_feed s ts = Inr (vs, s') \<Longrightarrow> \<forall>v \<in> set vs. v < mod_p"
proof (induction ts arbitrary: s vs)
  case Nil
  then show ?case by simp
next
  case (Cons t ts)
  from Cons.prems obtain v s1 vs1 where c: "RollingHash_call s t = Inr (v, s1)"
    and f: "RollingHash_feed s1 ts = Inr (vs1, s')" and vs: "vs = v # vs1"
    by (auto split: sum.splits prod.splits)
  from RollingHash_call_less[OF c] Cons.IH[OF f] vs show ?case by simp
qed

lemma RollingHashIterator_range_less:
  "RollingHashIterator_range k toks = Inr hs \<Longrightarrow> \<forall>h \<in> set hs. h < mod_p"
  by (auto simp: RollingHashIterator_range_def split: sum.splits prod.splits
           dest: RollingHash_feed_less)

lemma RollingHashIterator_range_total:
  assumes "k \<noteq> 0"
  shows "\<exists>hs. RollingHashIterator_range k toks = Inr hs \<and> length hs = length toks"
proof -
  have k: "(ucast k :: 64 word) \<noteq> 0" using assms by (rule ucast_32_64_nonzero)
  from RollingHash_feed_inv[OF RollingHash_inv_init[OF k] k, of toks]
  show ?thesis by (auto simp: RollingHashIterator_range_def)
qed

lemma winnow_step_filtered:
  "filtered (winnow_step w s x) = filtered s \<or>
   filtered (winnow_step w s x) =
     filtered s @ [h_buf (winnow_step w s x) ! min_pos (winnow_step w s x)]"
  by (simp add: winnow_step_def Let_def)

lemma winnow_filtered_subset:
  assumes w: "0 < w"
  shows "set (filtered (winnow_run w ys)) \<subseteq> set ys"
proof (induction ys rule: rev_induct)
  case Nil
  then show ?case by (simp add: winnow_run_def winnow_init_def)
next
  case (snoc x ys)
  let ?s = "winnow_run w ys"
  let ?s' = "winnow_step w ?s x"
  have inv': "winnow_inv w (ys @ [x]) ?s'"
    using winnow_inv_run[OF w, of "ys @ [x]"] by (simp add: winnow_run_snoc)
  have "set (filtered ?s') \<subseteq> set (ys @ [x])"
  proof (cases "length (ys @ [x]) < w")
    case True
    then have "filtered ?s' = []" using inv' unfolding winnow_inv_def by blast
    then show ?thesis by simp
  next
    case False
    then have n: "w \<le> length (ys @ [x])" by simp
    have m: "min_pos ?s' < w" using inv' unfolding winnow_inv_def by blast
    obtain j where j: "j < length (ys @ [x])" "length (ys @ [x]) \<le> j + w" "Suc j mod w = min_pos ?s'"
      using residue_in_window[OF m n] by blast
    have "h_buf ?s' ! (Suc j mod w) = (ys @ [x]) ! j"
      using inv' j(1,2) unfolding winnow_inv_def by blast
    then have "h_buf ?s' ! min_pos ?s' \<in> set (ys @ [x])"
      using j(1,3) by (metis nth_mem)
    moreover have "set (filtered ?s) \<subseteq> set (ys @ [x])" using snoc.IH by auto
    ultimately show ?thesis using winnow_step_filtered[of w ?s x] by auto
  qed
  then show ?case by (simp add: winnow_run_snoc)
qed

lemma winnowFilter_subset:
  "winnowFilter w hs = Inr fps \<Longrightarrow> set fps \<subseteq> set hs"
proof (cases "w = 0")
  case True
  assume "winnowFilter w hs = Inr fps"
  then have "hs = []" "fps = filtered (winnow_run 0 [])"
    using True by (auto simp: winnowFilter_def split: if_splits)
  then show ?thesis by (simp add: winnow_run_def winnow_init_def)
next
  case False
  assume "winnowFilter w hs = Inr fps"
  then have "fps = filtered (winnow_run (unat w) hs)"
    by (auto simp: winnowFilter_def split: if_splits)
  moreover have "0 < unat w" using False by (simp add: unat_gt_0)
  ultimately show ?thesis using winnow_filtered_subset by simp
qed

lemma fingerprints_less:
  "fingerprints k w toks = Inr fps \<Longrightarrow> \<forall>h \<in> set fps. h < mod_p"
  by (auto simp: fingerprints_def split: if_splits sum.splits
           dest!: RollingHashIterator_range_less winnowFilter_subset)

lemma fingerprints_total:
  assumes "k \<noteq> 0" "w \<noteq> 0"
  shows "\<exists>fps. fingerprints k w toks = Inr fps"
proof -
  obtain hs where "RollingHashIterator_range (ucast k) toks = Inr hs"
    using RollingHashIterator_range_total[OF ucast_16_32_nonzero[OF assms(1)]] by blast
  moreover have "(ucast w :: 32 word) \<noteq> 0" using assms(2) by (rule ucast_16_32_nonzero)
  ultimately show ?thesis using assms(2) by (simp add: fingerprints_def winnowFilter_def)
qed

lemma addToGroup_total:
  "idx_k idx \<noteq> 0 \<Longrightarrow> idx_w idx \<noteq> 0 \<Longrightarrow> \<exists>idx'. addToGroup idx name toks = Inr idx'"
  using fingerprints_total[of "idx_k idx" "idx_w idx" toks] by (auto simp: addToGroup_Inr)

lemma addToGroup_params:
  "addToGroup idx name toks = Inr idx' \<Longrightarrow> idx_k idx' = idx_k idx \<and> idx_w idx' = idx_w idx"
  by (auto simp: addToGroup_Inr)

lemma addToGroup_all_total:
  "idx_k idx \<noteq> 0 \<Longrightarrow> idx_w idx \<noteq> 0 \<Longrightarrow> \<exists>idx'. addToGroup_all idx docs = Inr idx'"
proof (induction docs arbitrary: idx)
  case Nil
  then show ?case by simp
next
  case (Cons doc docs)
  obtain name toks where doc: "doc = (name, toks)" by (cases doc)
  obtain idx1 where a: "addToGroup idx name toks = Inr idx1"
    using addToGroup_total[OF Cons.prems] by blast
  have "idx_k idx1 \<noteq> 0" "idx_w idx1 \<noteq> 0" using addToGroup_params[OF a] Cons.prems by simp_all
  from Cons.IH[OF this] show ?case using a doc by simp
qed

lemma replicate_2: "replicate 2 x = [x, x]"
  by (simp add: numeral_2_eq_2)

lemma fingerprints_example_123: "fingerprints 2 2 [1, 2, 3] = Inr [1, 4194303]"
  by (simp add: fingerprints_def RollingHashIterator_range_def RollingHash_init_def
      RollingHash_call_def modPow_def base_def mod_p_def replicate_2
      winnowFilter_def winnow_run_def winnow_init_def winnow_step_def min_element_def Let_def)

lemma fingerprints_example_321: "fingerprints 2 2 [3, 2, 1] = Inr [3, 8388603]"
  by (simp add: fingerprints_def RollingHashIterator_range_def RollingHash_init_def
      RollingHash_call_def modPow_def base_def mod_p_def replicate_2
      winnowFilter_def winnow_run_def winnow_init_def winnow_step_def min_element_def Let_def)

lemma addToGroup_example_a:
  "addToGroup (Index_new 2 2) ''a'' [1, 2, 3] =
     Inr \<lparr>index = [(1, [0]), (4194303, [0])], groups = [(0, [1, 4194303])],
          identifiers = [(''a'', 0)], names = [(0, ''a'')], idx_k = 2, idx_w = 2\<rparr>"
  by (simp add: addToGroup_def resolve_def Index_new_def fingerprints_example_123
      record_hash_def insert_at_def subscript_def set_insert_def insort_insert_key_def
      word_le_nat_alt word_less_nat_alt)

lemma addToGroup_example_b:
  "addToGroup \<lparr>index = [(1, [0]), (4194303, [0])], groups = [(0, [1, 4194303])],
          identifiers = [(''a'', 0)], names = [(0, ''a'')], idx_k = 2, idx_w = 2\<rparr> ''b'' [1, 2, 3] =
     Inr \<lparr>index = [(1, [0, 1]), (4194303, [0, 1])], groups = [(0, [1, 4194303]), (1, [1, 4194303])],
          identifiers = [(''a'', 0), (''b'', 1)], names = [(0, ''a''), (1, ''b'')],
          idx_k = 2, idx_w = 2\<rparr>"
  by (simp add: addToGroup_def resolve_def fingerprints_example_123
      record_hash_def insert_at_def subscript_def set_insert_def insort_insert_key_def
      word_le_nat_alt word_less_nat_alt)

lemma addToGroup_example_a_again:
  "addToGroup \<lparr>index = [(1, [0]), (4194303, [0])], groups = [(0, [1, 4194303])],
          identifiers = [(''a'', 0)], names = [(0, ''a'')], idx_k = 2, idx_w = 2\<rparr> ''a'' [3, 2, 1] =
     Inr \<lparr>index = [(1, [0]), (4194303, [0]), (3, [0]), (8388603, [0])],
          groups = [(0, [1, 3, 4194303, 8388603])],
          identifiers = [(''a'', 0)], names = [(0, ''a'')], idx_k = 2, idx_w = 2\<rparr>"
  by (simp add: addToGroup_def resolve_def fingerprints_example_321
      record_hash_def insert_at_def subscript_def set_insert_def insort_insert_key_def
      word_le_nat_alt word_less_nat_alt)

text \<open>
  Claim C6. Every index that a sequence of \<open>addToGroup\<close> calls builds from the empty index
  has mirrored maps: a document id is in the inverted-map entry of a fingerprint exactly
  when the fingerprint is in the forward set of that id. With \<open>k\<close> and \<open>w\<close> both nonzero
  every such sequence does build an index.
\<close>

theorem index_mirror:
  "(addToGroup_all (Index_new k w) docs = Inr idx \<longrightarrow>
      (\<forall>F d. d \<in> set (inverted idx F) \<longleftrightarrow> F \<in> set (forward_set idx d))) \<and>
   (k \<noteq> 0 \<and> w \<noteq> 0 \<longrightarrow> (\<exists>idx'. addToGroup_all (Index_new k w) docs = Inr idx'))"
proof -
  have "mirror idx" if "addToGroup_all (Index_new k w) docs = Inr idx"
    using mirror_new that by (rule mirror_addToGroup_all)
  moreover have "\<exists>idx'. addToGroup_all (Index_new k w) docs = Inr idx'" if "k \<noteq> 0" "w \<noteq> 0"
    using that by (intro addToGroup_all_total) (simp_all add: Index_new_def)
  ultimately show ?thesis unfolding mirror_def by blast
qed

theorem index_mirror_witness:
  "(2 :: 16 word) \<noteq> 0 \<and>
   addToGroup_all (Index_new 2 2) [(''a'', [1, 2, 3]), (''b'', [1, 2, 3])] =
     Inr \<lparr>index = [(1, [0, 1]), (4194303, [0, 1])], groups = [(0, [1, 4194303]), (1, [1, 4194303])],
          identifiers = [(''a'', 0), (''b'', 1)], names = [(0, ''a''), (1, ''b'')],
          idx_k = 2, idx_w = 2\<rparr> \<and>
   (1 :: 16 word) \<in> set (inverted \<lparr>index = [(1, [0, 1]), (4194303, [0, 1])],
          groups = [(0, [1, 4194303]), (1, [1, 4194303])],
          identifiers = [(''a'', 0), (''b'', 1)], names = [(0, ''a''), (1, ''b'')],
          idx_k = 2, idx_w = 2\<rparr> 4194303) \<and>
   (4194303 :: 64 word) \<in> set (forward_set \<lparr>index = [(1, [0, 1]), (4194303, [0, 1])],
          groups = [(0, [1, 4194303]), (1, [1, 4194303])],
          identifiers = [(''a'', 0), (''b'', 1)], names = [(0, ''a''), (1, ''b'')],
          idx_k = 2, idx_w = 2\<rparr> 1)"
  using index_mirror[of 2 2 "[(''a'', [1, 2, 3]), (''b'', [1, 2, 3])]"
      "\<lparr>index = [(1, [0, 1]), (4194303, [0, 1])], groups = [(0, [1, 4194303]), (1, [1, 4194303])],
          identifiers = [(''a'', 0), (''b'', 1)], names = [(0, ''a''), (1, ''b'')],
          idx_k = 2, idx_w = 2\<rparr>"]
  by (simp add: addToGroup_example_a addToGroup_example_b inverted_def forward_set_def)

text \<open>
  Claim C9. When \<open>groupName\<close> is already registered with id \<open>i\<close>, a successful
  \<open>addToGroup\<close> leaves the name-to-id and id-to-name maps as they are (the existing id
  is used and none is created), and it merges the fingerprints of the new tokens into
  what is stored: the forward set of \<open>i\<close> becomes its union with the new fingerprints,
  every other forward set is kept, and \<open>i\<close> is added to the inverted-map entry of each
  new fingerprint, all previous members being kept. With \<open>k\<close> and \<open>w\<close> nonzero the call
  succeeds.
\<close>

theorem addToGroup_registered_merges:
  assumes "map_of (identifiers idx) name = Some i"
  shows "(\<forall>idx'. addToGroup idx name toks = Inr idx' \<longrightarrow>
            (\<exists>fps. fingerprints (idx_k idx) (idx_w idx) toks = Inr fps \<and>
               identifiers idx' = identifiers idx \<and> names idx' = names idx \<and>
               (\<forall>d. set (forward_set idx' d) =
                      set (forward_set idx d) \<union> (if d = i then set fps else {})) \<and>
               (\<forall>F. set (inverted idx' F) =
                      set (inverted idx F) \<union> (if F \<in> set fps then {i} else {})))) \<and>
         (idx_k idx \<noteq> 0 \<and> idx_w idx \<noteq> 0 \<longrightarrow> (\<exists>idx'. addToGroup idx name toks = Inr idx'))"
proof -
  have r: "resolve idx name = (i, idx)" using assms by (simp add: resolve_def)
  show ?thesis
    using addToGroup_total[of idx name toks]
    by (auto simp: addToGroup_Inr r inverted_foldl_record_hash forward_set_foldl_record_hash)
qed

theorem addToGroup_registered_merges_witness:
  "map_of (identifiers \<lparr>index = [(1, [0]), (4194303, [0])], groups = [(0, [1, 4194303])],
          identifiers = [(''a'', 0)], names = [(0, ''a'')], idx_k = 2, idx_w = 2\<rparr>) ''a'' = Some 0 \<and>
   addToGroup \<lparr>index = [(1, [0]), (4194303, [0])], groups = [(0, [1, 4194303])],
          identifiers = [(''a'', 0)], names = [(0, ''a'')], idx_k = 2, idx_w = 2\<rparr> ''a'' [3, 2, 1] =
     Inr \<lparr>index = [(1, [0]), (4194303, [0]), (3, [0]), (8388603, [0])],
          groups = [(0, [1, 3, 4194303, 8388603])],
          identifiers = [(''a'', 0)], names = [(0, ''a'')], idx_k = 2, idx_w = 2\<rparr> \<and>
   fingerprints 2 2 [3, 2, 1] = Inr [3, 8388603] \<and>
   set (forward_set \<lparr>index = [(1, [0]), (4194303, [0]), (3, [0]), (8388603, [0])],
          groups = [(0, [1, 3, 4194303, 8388603])],
          identifiers = [(''a'', 0)], names = [(0, ''a'')], idx_k = 2, idx_w = 2\<rparr> 0) =
     set (forward_set \<lparr>index = [(1, [0]), (4194303, [0])], groups = [(0, [1, 4194303])],
          identifiers = [(''a'', 0)], names = [(0, ''a'')], idx_k = 2, idx_w = 2\<rparr> 0) \<union>
     set [3, 8388603]"
  using addToGroup_registered_merges[of
      "\<lparr>index = [(1, [0]), (4194303, [0])], groups = [(0, [1, 4194303])],
          identifiers = [(''a'', 0)], names = [(0, ''a'')], idx_k = 2, idx_w = 2\<rparr>" "''a''" 0 "[3, 2, 1]"]
  by (auto simp: addToGroup_example_a_again fingerprints_example_321 forward_set_def)

section \<open>Invariants of an index built by addToGroup\<close>

text \<open>
  Ids are handed out in order of registration, \<open>0, 1, 2, \<dots>\<close>, and the id-to-name map
  is the name-to-id map reversed, as long as no more than \<open>65536\<close> names were registered
  (the next \<open>identifiers.size()\<close> would no longer fit \<open>uint16_t\<close>).
\<close>

definition ids_inv :: "Index \<Rightarrow> bool" where
  "ids_inv idx \<longleftrightarrow>
     length (identifiers idx) \<le> 65536 \<and> distinct (map fst (identifiers idx)) \<and>
     map snd (identifiers idx) = map of_nat [0..<length (identifiers idx)] \<and>
     names idx = map (\<lambda>e. (snd e, fst e)) (identifiers idx)"

text \<open>
  Every entry of the inverted map is a non-empty ascending set of registered ids under a
  fingerprint below the modulus; every forward set is ascending.
\<close>

definition inverted_inv :: "Index \<Rightarrow> bool" where
  "inverted_inv idx \<longleftrightarrow>
     distinct (map fst (index idx)) \<and>
     (\<forall>e \<in> set (index idx).
        sorted (snd e) \<and> distinct (snd e) \<and> snd e \<noteq> [] \<and> fst e < mod_p \<and>
        set (snd e) \<subseteq> snd ` set (identifiers idx))"

definition groups_inv :: "Index \<Rightarrow> bool" where
  "groups_inv idx \<longleftrightarrow> (\<forall>e \<in> set (groups idx). sorted (snd e) \<and> distinct (snd e))"

definition index_inv :: "Index \<Rightarrow> bool" where
  "index_inv idx \<longleftrightarrow> ids_inv idx \<and> inverted_inv idx \<and> groups_inv idx \<and> mirror idx"

lemma update_absent: "k \<notin> fst ` set al \<Longrightarrow> AList.update k v al = al @ [(k, v)]"
  by (induction al) auto

lemma set_update_subset: "set (AList.update k v al) \<subseteq> insert (k, v) (set al)"
  by (induction al) auto

lemma insert_at_eq:
  "insert_at key x m =
     AList.update key (set_insert x (case map_of m key of None \<Rightarrow> [] | Some s \<Rightarrow> s)) m"
  by (simp add: insert_at_def subscript_def split: option.splits)

lemma of_nat_16_fresh:
  assumes "n < 65536"
  shows "(of_nat n :: 16 word) \<notin> set (map of_nat [0..<n])"
proof
  assume "(of_nat n :: 16 word) \<in> set (map of_nat [0..<n])"
  then obtain j where j: "j < n" "(of_nat n :: 16 word) = of_nat j" by auto
  then have "unat (of_nat n :: 16 word) = unat (of_nat j :: 16 word)" by simp
  moreover have "unat (of_nat n :: 16 word) = n" using assms by (simp add: unat_of_nat)
  moreover have "unat (of_nat j :: 16 word) = j" using assms j(1) by (simp add: unat_of_nat)
  ultimately show False using j(1) by simp
qed

lemma resolve_registered:
  "map_of (identifiers idx) name = Some i \<Longrightarrow> resolve idx name = (i, idx)"
  by (simp add: resolve_def)

lemma resolve_new:
  assumes "map_of (identifiers idx) name = None" "ids_inv idx"
    "length (identifiers idx) < 65536"
  shows "resolve idx name =
      (of_nat (length (identifiers idx)),
       idx\<lparr>identifiers := identifiers idx @ [(name, of_nat (length (identifiers idx)))],
           names := names idx @ [(of_nat (length (identifiers idx)), name)]\<rparr>)"
proof -
  let ?n = "length (identifiers idx)"
  have a: "name \<notin> fst ` set (identifiers idx)"
    using assms(1) by (simp add: map_of_eq_None_iff)
  from assms(2) have nm: "names idx = map (\<lambda>e. (snd e, fst e)) (identifiers idx)"
    and sn: "map snd (identifiers idx) = map of_nat [0..<?n]"
    unfolding ids_inv_def by blast+
  have "fst ` set (names idx) = set (map snd (identifiers idx))"
    unfolding nm by (simp add: image_image)
  moreover have "(of_nat ?n :: 16 word) \<notin> set (map snd (identifiers idx))"
    unfolding sn by (rule of_nat_16_fresh[OF assms(3)])
  ultimately have b: "(of_nat ?n :: 16 word) \<notin> fst ` set (names idx)" by simp
  show ?thesis
    using assms(1) by (simp add: resolve_def Let_def update_absent[OF a] update_absent[OF b])
qed

lemma length_update_absent:
  "k \<notin> fst ` set al \<Longrightarrow> length (AList.update k v al) = Suc (length al)"
  by (simp add: update_absent)

lemma length_update_ge: "length al \<le> length (AList.update k v al)"
  by (induction al) auto

lemma resolve_length:
  "length (identifiers idx) \<le> length (identifiers (snd (resolve idx name)))"
  by (simp add: resolve_def Let_def length_update_ge split: option.splits)


lemma resolve_new_length:
  assumes "map_of (identifiers idx) name = None"
  shows "length (identifiers (snd (resolve idx name))) = Suc (length (identifiers idx))"
proof -
  have a: "name \<notin> fst ` set (identifiers idx)"
    using assms by (simp add: map_of_eq_None_iff)
  show ?thesis using assms by (simp add: resolve_def Let_def length_update_absent[OF a])
qed

lemma ids_inv_resolve:
  assumes "ids_inv idx" "length (identifiers (snd (resolve idx name))) \<le> 65536"
  shows "ids_inv (snd (resolve idx name))"
proof (cases "map_of (identifiers idx) name")
  case (Some i)
  then show ?thesis using assms(1) by (simp add: resolve_registered)
next
  case None
  let ?n = "length (identifiers idx)"
  have "length (identifiers (snd (resolve idx name))) = Suc ?n"
    using None by (rule resolve_new_length)
  then have n: "?n < 65536" using assms(2) by simp
  from assms(1) have d: "distinct (map fst (identifiers idx))"
    and nm: "names idx = map (\<lambda>e. (snd e, fst e)) (identifiers idx)"
    and sn: "map snd (identifiers idx) = map of_nat [0..<?n]"
    unfolding ids_inv_def by blast+
  have a: "name \<notin> fst ` set (identifiers idx)"
    using None by (simp add: map_of_eq_None_iff)
  show ?thesis
    unfolding resolve_new[OF None assms(1) n] ids_inv_def
    using n d a sn nm by simp
qed

lemma resolve_id_registered:
  assumes "ids_inv idx" "length (identifiers (snd (resolve idx name))) \<le> 65536"
  shows "fst (resolve idx name) \<in> snd ` set (identifiers (snd (resolve idx name)))"
proof (cases "map_of (identifiers idx) name")
  case (Some i)
  then have "(name, i) \<in> set (identifiers idx)" by (rule map_of_SomeD)
  then show ?thesis using Some by (force simp: resolve_registered)
next
  case None
  have "length (identifiers (snd (resolve idx name))) = Suc (length (identifiers idx))"
    using None by (rule resolve_new_length)
  then have n: "length (identifiers idx) < 65536" using assms(2) by simp
  show ?thesis unfolding resolve_new[OF None assms(1) n] by simp
qed

lemma resolve_identifiers_mono:
  "set (identifiers idx) \<subseteq> set (identifiers (snd (resolve idx name)))"
proof (cases "map_of (identifiers idx) name")
  case (Some i)
  then show ?thesis by (simp add: resolve_registered)
next
  case None
  then have "name \<notin> fst ` set (identifiers idx)" by (simp add: map_of_eq_None_iff)
  then show ?thesis using None by (auto simp: resolve_def Let_def update_absent)
qed

lemma resolve_index_groups [simp]:
  "index (snd (resolve idx name)) = index idx"
  "groups (snd (resolve idx name)) = groups idx"
  by (simp_all add: resolve_def Let_def split: option.splits)

lemma inverted_inv_resolve: "inverted_inv idx \<Longrightarrow> inverted_inv (snd (resolve idx name))"
  unfolding inverted_inv_def using resolve_identifiers_mono[of idx name] by fastforce

lemma groups_inv_resolve: "groups_inv idx \<Longrightarrow> groups_inv (snd (resolve idx name))"
  by (simp add: groups_inv_def)

lemma mirror_resolve: "mirror idx \<Longrightarrow> mirror (snd (resolve idx name))"
  by (simp add: mirror_def)

lemma sorted_set_insert: "sorted s \<Longrightarrow> sorted (set_insert x s)"
  by (simp add: set_insert_def sorted_insort_insert)

lemma distinct_set_insert: "distinct s \<Longrightarrow> distinct (set_insert x s)"
  by (simp add: set_insert_def distinct_insort_insert)

lemma set_insert_nonempty: "set_insert x s \<noteq> []"
  using set_set_insert[of x s] by auto

lemma inverted_inv_record_hash:
  assumes "inverted_inv idx" "i \<in> snd ` set (identifiers idx)" "h < mod_p"
  shows "inverted_inv (record_hash i idx h)"
proof -
  let ?s = "case map_of (index idx) h of None \<Rightarrow> [] | Some s \<Rightarrow> s"
  have idx': "index (record_hash i idx h) = AList.update h (set_insert i ?s) (index idx)"
    by (simp add: record_hash_def insert_at_eq)
  from assms(1) have d: "distinct (map fst (index idx))"
    and e: "\<And>e. e \<in> set (index idx) \<Longrightarrow>
        sorted (snd e) \<and> distinct (snd e) \<and> snd e \<noteq> [] \<and> fst e < mod_p \<and>
        set (snd e) \<subseteq> snd ` set (identifiers idx)"
    unfolding inverted_inv_def by blast+
  have s: "sorted ?s \<and> distinct ?s \<and> set ?s \<subseteq> snd ` set (identifiers idx)"
  proof (cases "map_of (index idx) h")
    case None
    then show ?thesis by simp
  next
    case (Some s)
    then have "(h, s) \<in> set (index idx)" by (rule map_of_SomeD)
    from e[OF this] show ?thesis using Some by simp
  qed
  have new: "sorted (set_insert i ?s) \<and> distinct (set_insert i ?s) \<and> set_insert i ?s \<noteq> [] \<and>
      set (set_insert i ?s) \<subseteq> snd ` set (identifiers idx)"
    using s assms(2) by (simp add: sorted_set_insert distinct_set_insert set_insert_nonempty set_set_insert)
  have "sorted (snd e') \<and> distinct (snd e') \<and> snd e' \<noteq> [] \<and> fst e' < mod_p \<and>
        set (snd e') \<subseteq> snd ` set (identifiers idx)"
    if "e' \<in> set (AList.update h (set_insert i ?s) (index idx))" for e'
  proof -
    from that set_update_subset
    consider "e' = (h, set_insert i ?s)" | "e' \<in> set (index idx)" by fastforce
    then show ?thesis
    proof cases
      case 1
      then show ?thesis using new assms(3) by simp
    next
      case 2
      then show ?thesis by (rule e)
    qed
  qed
  then show ?thesis
    unfolding inverted_inv_def idx' using d by (simp add: distinct_update)
qed

lemma groups_inv_record_hash:
  assumes "groups_inv idx"
  shows "groups_inv (record_hash i idx h)"
proof -
  let ?s = "case map_of (groups idx) i of None \<Rightarrow> [] | Some s \<Rightarrow> s"
  have g': "groups (record_hash i idx h) = AList.update i (set_insert h ?s) (groups idx)"
    by (simp add: record_hash_def insert_at_eq)
  from assms have e: "\<And>e. e \<in> set (groups idx) \<Longrightarrow> sorted (snd e) \<and> distinct (snd e)"
    unfolding groups_inv_def by blast
  have s: "sorted ?s \<and> distinct ?s"
  proof (cases "map_of (groups idx) i")
    case None
    then show ?thesis by simp
  next
    case (Some s)
    then have "(i, s) \<in> set (groups idx)" by (rule map_of_SomeD)
    from e[OF this] show ?thesis using Some by simp
  qed
  have "sorted (snd e') \<and> distinct (snd e')"
    if "e' \<in> set (AList.update i (set_insert h ?s) (groups idx))" for e'
  proof -
    from that set_update_subset
    consider "e' = (i, set_insert h ?s)" | "e' \<in> set (groups idx)" by fastforce
    then show ?thesis
    proof cases
      case 1
      then show ?thesis using s by (simp add: sorted_set_insert distinct_set_insert)
    next
      case 2
      then show ?thesis by (rule e)
    qed
  qed
  then show ?thesis unfolding groups_inv_def g' by simp
qed

lemma mirror_record_hash: "mirror idx \<Longrightarrow> mirror (record_hash i idx h)"
  unfolding mirror_def by (auto simp: inverted_record_hash forward_set_record_hash set_set_insert)

lemma invs_foldl_record_hash:
  assumes "inverted_inv idx" "groups_inv idx" "i \<in> snd ` set (identifiers idx)"
    "\<forall>h \<in> set fps. h < mod_p"
  shows "inverted_inv (foldl (record_hash i) idx fps) \<and> groups_inv (foldl (record_hash i) idx fps)"
  using assms
proof (induction fps arbitrary: idx)
  case Nil
  then show ?case by simp
next
  case (Cons h fps)
  have "inverted_inv (record_hash i idx h)"
    using Cons.prems by (intro inverted_inv_record_hash) simp_all
  moreover have "groups_inv (record_hash i idx h)"
    using Cons.prems by (intro groups_inv_record_hash)
  ultimately show ?case using Cons.IH[of "record_hash i idx h"] Cons.prems by simp
qed

lemma index_inv_addToGroup:
  assumes inv: "index_inv idx" and add: "addToGroup idx name toks = Inr idx'"
    and len: "length (identifiers idx') \<le> 65536"
  shows "index_inv idx'"
proof -
  let ?i = "fst (resolve idx name)"
  let ?idx1 = "snd (resolve idx name)"
  from add obtain fps where fp: "fingerprints (idx_k idx) (idx_w idx) toks = Inr fps"
    and idx': "idx' = foldl (record_hash ?i) ?idx1 fps"
    unfolding addToGroup_Inr by blast
  have len1: "length (identifiers ?idx1) \<le> 65536" using len unfolding idx' by simp
  from inv have i0: "ids_inv idx" and v0: "inverted_inv idx" and g0: "groups_inv idx"
    and m0: "mirror idx" unfolding index_inv_def by blast+
  have i1: "ids_inv ?idx1" using i0 len1 by (rule ids_inv_resolve)
  have reg: "?i \<in> snd ` set (identifiers ?idx1)" using i0 len1 by (rule resolve_id_registered)
  have less: "\<forall>h \<in> set fps. h < mod_p" using fp by (rule fingerprints_less)
  have "inverted_inv idx' \<and> groups_inv idx'"
    unfolding idx' using inverted_inv_resolve[OF v0] groups_inv_resolve[OF g0] reg less
    by (rule invs_foldl_record_hash)
  moreover have "ids_inv idx'" using i1 unfolding idx' ids_inv_def by simp
  moreover have "mirror idx'" using m0 add by (rule mirror_addToGroup)
  ultimately show ?thesis unfolding index_inv_def by blast
qed

lemma addToGroup_length:
  "addToGroup idx name toks = Inr idx' \<Longrightarrow> length (identifiers idx) \<le> length (identifiers idx')"
  by (auto simp: addToGroup_Inr resolve_length)

lemma addToGroup_all_length:
  "addToGroup_all idx docs = Inr idx' \<Longrightarrow> length (identifiers idx) \<le> length (identifiers idx')"
proof (induction docs arbitrary: idx)
  case Nil
  then show ?case by simp
next
  case (Cons doc docs)
  obtain name toks where doc: "doc = (name, toks)" by (cases doc)
  from Cons.prems obtain idx1 where a: "addToGroup idx name toks = Inr idx1"
    and r: "addToGroup_all idx1 docs = Inr idx'"
    by (auto simp: doc split: sum.splits)
  from addToGroup_length[OF a] Cons.IH[OF r] show ?case by simp
qed

lemma index_inv_addToGroup_all:
  "index_inv idx \<Longrightarrow> addToGroup_all idx docs = Inr idx' \<Longrightarrow>
   length (identifiers idx') \<le> 65536 \<Longrightarrow> index_inv idx'"
proof (induction docs arbitrary: idx)
  case Nil
  then show ?case by simp
next
  case (Cons doc docs)
  obtain name toks where doc: "doc = (name, toks)" by (cases doc)
  from Cons.prems(2) obtain idx1 where a: "addToGroup idx name toks = Inr idx1"
    and r: "addToGroup_all idx1 docs = Inr idx'"
    by (auto simp: doc split: sum.splits)
  have "length (identifiers idx1) \<le> 65536"
    using addToGroup_all_length[OF r] Cons.prems(3) by simp
  from index_inv_addToGroup[OF Cons.prems(1) a this] r Cons.prems(3)
  show ?case by (rule Cons.IH)
qed

lemma index_inv_new: "index_inv (Index_new k w)"
  using mirror_new[of k w]
  by (simp add: index_inv_def ids_inv_def inverted_inv_def groups_inv_def Index_new_def)

lemma index_inv_built:
  "addToGroup_all (Index_new k w) docs = Inr idx \<Longrightarrow> length (identifiers idx) \<le> 65536 \<Longrightarrow>
   index_inv idx"
  using index_inv_new by (rule index_inv_addToGroup_all)

text \<open>Every stored fingerprint is below the modulus.\<close>

definition hashes_bounded :: "Index \<Rightarrow> bool" where
  "hashes_bounded idx \<longleftrightarrow>
     (\<forall>e \<in> set (index idx). fst e < mod_p) \<and>
     (\<forall>e \<in> set (groups idx). \<forall>h \<in> set (snd e). h < mod_p)"

lemma hashes_bounded_record_hash:
  assumes "hashes_bounded idx" "h < mod_p"
  shows "hashes_bounded (record_hash i idx h)"
proof -
  let ?s = "case map_of (index idx) h of None \<Rightarrow> [] | Some s \<Rightarrow> s"
  let ?g = "case map_of (groups idx) i of None \<Rightarrow> [] | Some s \<Rightarrow> s"
  have idx': "index (record_hash i idx h) = AList.update h (set_insert i ?s) (index idx)"
    and g': "groups (record_hash i idx h) = AList.update i (set_insert h ?g) (groups idx)"
    by (simp_all add: record_hash_def insert_at_eq)
  from assms(1) have a: "\<And>e. e \<in> set (index idx) \<Longrightarrow> fst e < mod_p"
    and b: "\<And>e x. e \<in> set (groups idx) \<Longrightarrow> x \<in> set (snd e) \<Longrightarrow> x < mod_p"
    unfolding hashes_bounded_def by blast+
  have g: "\<forall>x \<in> set ?g. x < mod_p"
  proof (cases "map_of (groups idx) i")
    case None
    then show ?thesis by simp
  next
    case (Some s)
    then have "(i, s) \<in> set (groups idx)" by (rule map_of_SomeD)
    then show ?thesis using b Some by fastforce
  qed
  have 1: "fst e' < mod_p" if "e' \<in> set (AList.update h (set_insert i ?s) (index idx))" for e'
  proof -
    from that set_update_subset
    consider "e' = (h, set_insert i ?s)" | "e' \<in> set (index idx)" by fastforce
    then show ?thesis using assms(2) a by cases simp_all
  qed
  have 2: "x < mod_p"
    if "e' \<in> set (AList.update i (set_insert h ?g) (groups idx))" "x \<in> set (snd e')" for e' x
  proof -
    from that(1) set_update_subset
    consider "e' = (i, set_insert h ?g)" | "e' \<in> set (groups idx)" by fastforce
    then show ?thesis
    proof cases
      case 1
      then show ?thesis using that(2) g assms(2) by (auto simp: set_set_insert)
    next
      case 2
      then show ?thesis using b that(2) by blast
    qed
  qed
  show ?thesis unfolding hashes_bounded_def idx' g' using 1 2 by blast
qed

lemma hashes_bounded_foldl:
  "hashes_bounded idx \<Longrightarrow> \<forall>h \<in> set fps. h < mod_p \<Longrightarrow>
   hashes_bounded (foldl (record_hash i) idx fps)"
  by (induction fps arbitrary: idx) (simp_all add: hashes_bounded_record_hash)

lemma hashes_bounded_addToGroup:
  assumes "hashes_bounded idx" "addToGroup idx name toks = Inr idx'"
  shows "hashes_bounded idx'"
proof -
  from assms(2) obtain fps where fp: "fingerprints (idx_k idx) (idx_w idx) toks = Inr fps"
    and idx': "idx' = foldl (record_hash (fst (resolve idx name))) (snd (resolve idx name)) fps"
    unfolding addToGroup_Inr by blast
  have "hashes_bounded (snd (resolve idx name))"
    using assms(1) by (simp add: hashes_bounded_def)
  then show ?thesis unfolding idx' using fingerprints_less[OF fp] by (rule hashes_bounded_foldl)
qed

lemma hashes_bounded_addToGroup_all:
  "hashes_bounded idx \<Longrightarrow> addToGroup_all idx docs = Inr idx' \<Longrightarrow> hashes_bounded idx'"
proof (induction docs arbitrary: idx)
  case Nil
  then show ?case by simp
next
  case (Cons doc docs)
  obtain name toks where doc: "doc = (name, toks)" by (cases doc)
  from Cons.prems(2) obtain idx1 where a: "addToGroup idx name toks = Inr idx1"
    and r: "addToGroup_all idx1 docs = Inr idx'"
    by (auto simp: doc split: sum.splits)
  from hashes_bounded_addToGroup[OF Cons.prems(1) a] r show ?case by (rule Cons.IH)
qed

lemma cast_32_lossless:
  assumes "h < mod_p"
  shows "(ucast (word_of_int (uint h) :: 32 word) :: 64 word) = h"
proof -
  have u: "unat h < 33554393" using assms by (simp add: word_less_nat_alt mod_p_def)
  then have u32: "unat h < 2 ^ 32" by simp
  have c: "(word_of_int (uint h) :: 32 word) = ucast h" by simp
  have "unat (ucast h :: 32 word) = take_bit 32 (unat h)"
    by (simp add: unsigned_ucast_eq)
  also have "\<dots> = unat h" using u32 by (simp only: take_bit_nat_eq_self)
  finally have "unat (ucast (ucast h :: 32 word) :: 64 word) = unat h"
    by (simp only: unat_ucast_32_64)
  then have "(ucast (ucast h :: 32 word) :: 64 word) = h" by (simp only: word_unat_eq_iff)
  then show ?thesis by (simp only: c)
qed

lemma as_int64_hash:
  assumes "(h :: 64 word) < mod_p"
  shows "as_int64 (JNumber (uint h)) = Inr (uint h)"
proof -
  have "uint h < 33554393" using assms by (simp add: word_less_def mod_p_def)
  then have "uint h < 2 ^ 63" by simp
  moreover have "- (2 ^ 63) \<le> uint h"
  proof -
    have "(0::int) \<le> uint h" by simp
    moreover have "- (2 ^ 63) \<le> (0::int)" by simp
    ultimately show ?thesis by (rule order_trans[rotated])
  qed
  ultimately show ?thesis by (simp only: as_int64.simps) simp
qed

text \<open>
  Claim C10. Every value that \<open>RollingHash::operator()\<close> returns is below the modulus
  \<open>33554393 < 2^25\<close>. Hence in every index built by \<open>addToGroup\<close> calls from the empty
  index every fingerprint, as a key of the inverted map and as an element of a forward
  set, is below the modulus; its number in the snapshot fits \<open>int64_t\<close>, and casting it
  to \<open>uint32_t\<close> and widening it again, as the loading constructor does, gives the
  fingerprint back.
\<close>

theorem fingerprints_fit_32_bits:
  "(\<forall>s tok v s'. RollingHash_call s tok = Inr (v, s') \<longrightarrow> v < mod_p) \<and>
   unat mod_p < 2 ^ 25 \<and>
   (addToGroup_all (Index_new k w) docs = Inr idx \<longrightarrow>
      (\<forall>e \<in> set (index idx).
         fst e < mod_p \<and>
         as_int64 (JNumber (uint (fst e))) = Inr (uint (fst e)) \<and>
         (ucast (word_of_int (uint (fst e)) :: 32 word) :: 64 word) = fst e) \<and>
      (\<forall>e \<in> set (groups idx). \<forall>h \<in> set (snd e).
         h < mod_p \<and> (ucast (word_of_int (uint h) :: 32 word) :: 64 word) = h))"
proof -
  have "hashes_bounded (Index_new k w)" by (simp add: hashes_bounded_def Index_new_def)
  then have "hashes_bounded idx" if "addToGroup_all (Index_new k w) docs = Inr idx"
    using that by (rule hashes_bounded_addToGroup_all)
  moreover have "unat mod_p < 2 ^ 25" by (simp add: mod_p_def)
  ultimately show ?thesis
    unfolding hashes_bounded_def
    using RollingHash_call_less cast_32_lossless as_int64_hash by blast
qed

theorem fingerprints_fit_32_bits_witness:
  "addToGroup_all (Index_new 2 2) [(''a'', [1, 2, 3])] =
     Inr \<lparr>index = [(1, [0]), (4194303, [0])], groups = [(0, [1, 4194303])],
          identifiers = [(''a'', 0)], names = [(0, ''a'')], idx_k = 2, idx_w = 2\<rparr> \<and>
   RollingHash_call \<lparr>rh_k = 2, rh_max_base = 33554384, rh_hash = 1, rh_i = 1, rh_memory = [1, 0]\<rparr> 2 =
     Inr (4194303, \<lparr>rh_k = 2, rh_max_base = 33554384, rh_hash = 4194303, rh_i = 0, rh_memory = [1, 2]\<rparr>) \<and>
   (4194303 :: 64 word) < mod_p \<and>
   as_int64 (JNumber (uint (4194303 :: 64 word))) = Inr 4194303 \<and>
   (ucast (word_of_int (uint (4194303 :: 64 word)) :: 32 word) :: 64 word) = 4194303"
  using fingerprints_fit_32_bits[of 2 2 "[(''a'', [1, 2, 3])]"
      "\<lparr>index = [(1, [0]), (4194303, [0])], groups = [(0, [1, 4194303])],
          identifiers = [(''a'', 0)], names = [(0, ''a'')], idx_k = 2, idx_w = 2\<rparr>"]
  by (simp add: addToGroup_example_a RollingHash_call_def base_def mod_p_def)

section \<open>Properties of matchTokens\<close>

text \<open>
  The registry of an index is in order when no two names share an id, the id-to-name map
  gives every registered id its name, and the inverted map mentions registered ids only.
\<close>

definition registry_ok :: "Index \<Rightarrow> bool" where
  "registry_ok idx \<longleftrightarrow>
     distinct (map fst (identifiers idx)) \<and> distinct (map snd (identifiers idx)) \<and>
     (\<forall>e \<in> set (identifiers idx). map_of (names idx) (snd e) = Some (fst e)) \<and>
     (\<forall>e \<in> set (index idx). set (snd e) \<subseteq> snd ` set (identifiers idx))"

lemma len16: "LENGTH(16) = 16"
  by simp

lemma distinct_of_nat_16:
  assumes "n \<le> 65536"
  shows "distinct (map of_nat [0..<n] :: 16 word list)"
proof -
  have "inj_on (of_nat :: nat \<Rightarrow> 16 word) (set [0..<n])"
  proof (rule inj_onI)
    fix x y assume x: "x \<in> set [0..<n]" and y: "y \<in> set [0..<n]"
      and e: "(of_nat x :: 16 word) = of_nat y"
    have "x < 65536" "y < 65536" using x y assms by auto
    then have "x mod 2 ^ 16 = x" "y mod 2 ^ 16 = y" by simp_all
    then have "unat (of_nat x :: 16 word) = x" "unat (of_nat y :: 16 word) = y"
      by (simp_all only: unat_of_nat len16)
    then show "x = y" using e by metis
  qed
  then show ?thesis by (simp add: distinct_map)
qed

lemma index_inv_registry_ok:
  assumes "index_inv idx"
  shows "registry_ok idx"
proof -
  from assms have len: "length (identifiers idx) \<le> 65536"
    and d: "distinct (map fst (identifiers idx))"
    and sn: "map snd (identifiers idx) = map of_nat [0..<length (identifiers idx)]"
    and nm: "names idx = map (\<lambda>e. (snd e, fst e)) (identifiers idx)"
    and reg: "\<And>e. e \<in> set (index idx) \<Longrightarrow> set (snd e) \<subseteq> snd ` set (identifiers idx)"
    unfolding index_inv_def ids_inv_def inverted_inv_def by blast+
  have ds: "distinct (map snd (identifiers idx))"
    unfolding sn using len by (rule distinct_of_nat_16)
  have "map_of (names idx) (snd e) = Some (fst e)" if "e \<in> set (identifiers idx)" for e
  proof -
    have "distinct (map fst (names idx))" unfolding nm using ds by (simp add: comp_def)
    moreover have "(snd e, fst e) \<in> set (names idx)" unfolding nm using that by force
    ultimately show ?thesis by (rule map_of_is_SomeI)
  qed
  then show ?thesis unfolding registry_ok_def using d ds reg by blast
qed

lemma sharedHashes_init:
  "distinct (map snd xs) \<Longrightarrow> set (map snd xs) \<inter> fst ` set acc = {} \<Longrightarrow>
   foldl (\<lambda>m entry. AList.update (snd entry) (0 :: 32 word) m) acc xs =
     acc @ map (\<lambda>e. (snd e, 0)) xs"
proof (induction xs arbitrary: acc)
  case Nil
  then show ?case by simp
next
  case (Cons x xs)
  have a: "snd x \<notin> fst ` set acc" using Cons.prems(2) by auto
  have "set (map snd xs) \<inter> fst ` set (acc @ [(snd x, 0 :: 32 word)]) = {}"
    using Cons.prems by auto
  with Cons.IH[of "acc @ [(snd x, 0)]"] Cons.prems(1)
  show ?case by (simp add: update_absent[OF a])
qed

lemma increment_keys:
  "i \<in> fst ` set sh \<Longrightarrow> map fst (increment sh i) = map fst sh"
proof -
  assume a: "i \<in> fst ` set sh"
  then obtain c where "map_of sh i = Some c"
    by (metis map_of_eq_None_iff not_None_eq)
  then show ?thesis using a by (simp add: increment_def subscript_def update_keys)
qed

lemma foldl_increment_keys:
  "set ids \<subseteq> fst ` set sh \<Longrightarrow> map fst (foldl increment sh ids) = map fst sh"
proof (induction ids arbitrary: sh)
  case Nil
  then show ?case by simp
next
  case (Cons i ids)
  have k: "map fst (increment sh i) = map fst sh" using Cons.prems by (simp add: increment_keys)
  then have "fst ` set (increment sh i) = fst ` set sh" by (metis set_map)
  then have "set ids \<subseteq> fst ` set (increment sh i)" using Cons.prems by simp
  from Cons.IH[OF this] k show ?case by simp
qed

lemma count_hash_keys:
  assumes "\<forall>e \<in> set (index idx). set (snd e) \<subseteq> fst ` set sh"
  shows "fst (count_hash idx (t, sh) h) = t + 1 \<and>
         map fst (snd (count_hash idx (t, sh) h)) = map fst sh"
proof (cases "map_of (index idx) h")
  case None
  then show ?thesis by (simp add: count_hash_def)
next
  case (Some ids)
  then have "(h, ids) \<in> set (index idx)" by (rule map_of_SomeD)
  then have "set ids \<subseteq> fst ` set sh" using assms by fastforce
  then show ?thesis using Some by (simp add: count_hash_def foldl_increment_keys)
qed

lemma foldl_count_hash:
  assumes "\<forall>e \<in> set (index idx). set (snd e) \<subseteq> fst ` set sh"
  shows "fst (foldl (count_hash idx) (t, sh) fps) = t + of_nat (length fps) \<and>
         map fst (snd (foldl (count_hash idx) (t, sh) fps)) = map fst sh"
  using assms
proof (induction fps arbitrary: t sh)
  case Nil
  then show ?case by simp
next
  case (Cons h fps)
  obtain t1 sh1 where c: "count_hash idx (t, sh) h = (t1, sh1)" by (cases "count_hash idx (t, sh) h")
  from count_hash_keys[OF Cons.prems, of t h] c
  have t1: "t1 = t + 1" and k1: "map fst sh1 = map fst sh" by simp_all
  have "fst ` set sh1 = fst ` set sh" using k1 by (metis set_map)
  then have "\<forall>e \<in> set (index idx). set (snd e) \<subseteq> fst ` set sh1" using Cons.prems by simp
  from Cons.IH[OF this, of t1] show ?case using c t1 k1 by simp
qed

lemma collect_make_pair:
  assumes "\<forall>e \<in> set sh. map_of (names idx) (fst e) = Some (f (fst e))"
  shows "\<exists>ps. collect (make_pair idx t) sh = Inr ps \<and> map right ps = map (\<lambda>e. f (fst e)) sh \<and>
           (\<forall>p \<in> set ps. left p = ''external'' \<and> leftTotal p = t)"
  using assms
proof (induction sh)
  case Nil
  then show ?case by simp
next
  case (Cons e sh)
  obtain i c where e: "e = (i, c)" by (cases e)
  from Cons.IH Cons.prems obtain ps where ps: "collect (make_pair idx t) sh = Inr ps"
    "map right ps = map (\<lambda>e. f (fst e)) sh" "\<forall>p \<in> set ps. left p = ''external'' \<and> leftTotal p = t"
    by auto
  have n: "map_of (names idx) i = Some (f i)" using Cons.prems e by simp
  have m: "make_pair idx t e =
      Inr \<lparr>left = ''external'', right = f i, covered = c, leftTotal = t,
           rightTotal = (case map_of (groups idx) i of Some g \<Rightarrow> of_nat (length g) | None \<Rightarrow> 0)\<rparr>"
    using n by (simp add: e make_pair_def)
  show ?case using ps by (simp add: m[unfolded e] e)
qed

lemma fingerprints_empty: "w \<noteq> 0 \<Longrightarrow> fingerprints k w [] = Inr []"
  by (simp add: fingerprints_def RollingHashIterator_range_def winnowFilter_def winnow_run_def
      winnow_init_def)

text \<open>
  Claim C8, as amended. For every index whose registry is in order (in particular every
  index built from the empty one by \<open>addToGroup\<close> calls that registered at most \<open>65536\<close>
  names) and whose \<open>k\<close> and \<open>w\<close> are nonzero, and for every token sequence,
  \<open>matchTokens\<close> returns, and its result has exactly one entry per registered document
  (the \<open>right\<close> fields are the registered names, each once), whatever its \<open>covered\<close>
  count is; every entry has \<open>left = "external"\<close> and reports as \<open>leftTotal\<close> the number of
  winnowing emissions of the input, repeated values counted each time (as a \<open>uint32_t\<close>).
\<close>

theorem matchTokens_complete:
  assumes "registry_ok idx" "idx_k idx \<noteq> 0" "idx_w idx \<noteq> 0"
  shows "\<exists>ps fps. matchTokens idx toks = Inr ps \<and>
           fingerprints (idx_k idx) (idx_w idx) toks = Inr fps \<and>
           length ps = length (identifiers idx) \<and>
           distinct (map right ps) \<and>
           set (map right ps) = fst ` set (identifiers idx) \<and>
           (\<forall>p \<in> set ps. left p = ''external'' \<and> leftTotal p = of_nat (length fps))"
proof -
  let ?ids = "identifiers idx"
  let ?sh0 = "foldl (\<lambda>m entry. AList.update (snd entry) (0 :: 32 word) m) [] ?ids"
  from assms(1) have d: "distinct (map fst ?ids)" and ds: "distinct (map snd ?ids)"
    and nm: "\<And>e. e \<in> set ?ids \<Longrightarrow> map_of (names idx) (snd e) = Some (fst e)"
    and reg: "\<And>e. e \<in> set (index idx) \<Longrightarrow> set (snd e) \<subseteq> snd ` set ?ids"
    unfolding registry_ok_def by blast+
  obtain fps where fp: "fingerprints (idx_k idx) (idx_w idx) toks = Inr fps"
    using fingerprints_total[OF assms(2,3)] by blast
  have sh0: "?sh0 = map (\<lambda>e. (snd e, 0)) ?ids"
    using sharedHashes_init[OF ds, of "[]"] by simp
  have keys0: "map fst ?sh0 = map snd ?ids" unfolding sh0 by (simp add: comp_def)
  then have k0: "fst ` set ?sh0 = snd ` set ?ids" by (metis set_map)
  obtain t sh where fold: "foldl (count_hash idx) (0, ?sh0) fps = (t, sh)"
    by (cases "foldl (count_hash idx) (0, ?sh0) fps")
  have "\<forall>e \<in> set (index idx). set (snd e) \<subseteq> fst ` set ?sh0" using reg k0 by simp
  from foldl_count_hash[OF this, of 0 fps] fold
  have t: "t = of_nat (length fps)" and keys: "map fst sh = map snd ?ids"
    using keys0 by simp_all
  define f where "f = (\<lambda>i. the (map_of (names idx) i))"
  have "\<forall>e \<in> set sh. map_of (names idx) (fst e) = Some (f (fst e))"
  proof
    fix e assume "e \<in> set sh"
    then have "fst e \<in> set (map fst sh)" by simp
    then have "fst e \<in> snd ` set ?ids" unfolding keys by simp
    then obtain e' where "e' \<in> set ?ids" "fst e = snd e'" by auto
    then show "map_of (names idx) (fst e) = Some (f (fst e))" using nm f_def by simp
  qed
  from collect_make_pair[OF this, of t]
  obtain ps where ps: "collect (make_pair idx t) sh = Inr ps"
    "map right ps = map (\<lambda>e. f (fst e)) sh"
    "\<forall>p \<in> set ps. left p = ''external'' \<and> leftTotal p = t" by blast
  have "map (\<lambda>e. f (fst e)) sh = map f (map fst sh)" by simp
  also have "\<dots> = map f (map snd ?ids)" by (simp only: keys)
  also have "\<dots> = map fst ?ids" using nm by (simp add: f_def)
  finally have r: "map right ps = map fst ?ids" using ps(2) by simp
  have m: "matchTokens idx toks = Inr ps"
    using fp fold ps(1) by (simp add: matchTokens_def)
  have "length ps = length ?ids" using r by (metis length_map)
  moreover have "distinct (map right ps)" using r d by simp
  moreover have "set (map right ps) = fst ` set ?ids" using r by simp
  ultimately show ?thesis using m fp ps(3) t by blast
qed

theorem matchTokens_complete_witness:
  "registry_ok \<lparr>index = [(1, [0, 1]), (4194303, [0, 1])],
                groups = [(0, [1, 4194303]), (1, [1, 4194303])],
                identifiers = [(''a'', 0), (''b'', 1)], names = [(0, ''a''), (1, ''b'')],
                idx_k = 2, idx_w = 2\<rparr> \<and>
   (2 :: 16 word) \<noteq> 0 \<and>
   fingerprints 2 2 [3, 2, 1] = Inr [3, 8388603] \<and>
   matchTokens \<lparr>index = [(1, [0, 1]), (4194303, [0, 1])],
                groups = [(0, [1, 4194303]), (1, [1, 4194303])],
                identifiers = [(''a'', 0), (''b'', 1)], names = [(0, ''a''), (1, ''b'')],
                idx_k = 2, idx_w = 2\<rparr> [3, 2, 1] =
     Inr [\<lparr>left = ''external'', right = ''a'', covered = 0, leftTotal = 2, rightTotal = 2\<rparr>,
          \<lparr>left = ''external'', right = ''b'', covered = 0, leftTotal = 2, rightTotal = 2\<rparr>]"
  using matchTokens_complete[of "\<lparr>index = [(1, [0, 1]), (4194303, [0, 1])],
                groups = [(0, [1, 4194303]), (1, [1, 4194303])],
                identifiers = [(''a'', 0), (''b'', 1)], names = [(0, ''a''), (1, ''b'')],
                idx_k = 2, idx_w = 2\<rparr>" "[3, 2, 1]"]
  by (simp add: registry_ok_def matchTokens_def fingerprints_example_321 count_hash_def
      make_pair_def)

theorem matchTokens_registry_counterexample:
  "matchTokens (snd (getPair (Index_new 3 3) ''a'' ''b'')) [] = Inl OutOfRange \<and>
   identifiers (snd (getPair \<lparr>index = [(1, [0]), (4194303, [0])], groups = [(0, [1, 4194303])],
          identifiers = [(''a'', 0)], names = [(0, ''a'')], idx_k = 2, idx_w = 2\<rparr> ''zz'' ''a'')) =
     [(''a'', 0), (''zz'', 0)] \<and>
   matchTokens (snd (getPair \<lparr>index = [(1, [0]), (4194303, [0])], groups = [(0, [1, 4194303])],
          identifiers = [(''a'', 0)], names = [(0, ''a'')], idx_k = 2, idx_w = 2\<rparr> ''zz'' ''a'')) [] =
     Inr [\<lparr>left = ''external'', right = ''a'', covered = 0, leftTotal = 0, rightTotal = 2\<rparr>]"
  by (simp add: getPair_def Index_new_def subscript_def matchTokens_def fingerprints_empty
      make_pair_def)

section \<open>Properties of serialize and the loading constructor\<close>

lemma as_int64_uint16: "as_int64 (JNumber (uint (i :: 16 word))) = Inr (uint i)"
proof -
  have "uint i < 2 ^ 16" using uint_bounded[of i] by simp
  then have "uint i < 2 ^ 63" by simp
  moreover have "- (2 ^ 63) \<le> uint i"
  proof -
    have "(0::int) \<le> uint i" by simp
    moreover have "- (2 ^ 63) \<le> (0::int)" by simp
    ultimately show ?thesis by (rule order_trans[rotated])
  qed
  ultimately show ?thesis by (simp only: as_int64.simps) simp
qed

lemma load_identifier_encoded:
  "load_identifier st (JArray [JString name, JNumber (uint i)]) =
     Inr (st\<lparr>identifiers := AList.update name i (identifiers st),
             names := AList.update i name (names st)\<rparr>)"
  by (simp add: load_identifier_def bind_def array_elem_def as_int64_uint16 del: as_int64.simps)

lemma load_identifiers:
  "distinct (map fst (identifiers st) @ map fst xs) \<Longrightarrow>
   distinct (map fst (names st) @ map snd xs) \<Longrightarrow>
   fold_err load_identifier st (map (\<lambda>(name, id). JArray [JString name, JNumber (uint id)]) xs) =
     Inr (st\<lparr>identifiers := identifiers st @ xs,
             names := names st @ map (\<lambda>e. (snd e, fst e)) xs\<rparr>)"
proof (induction xs arbitrary: st)
  case Nil
  then show ?case by simp
next
  case (Cons x xs)
  obtain n i where x: "x = (n, i)" by (cases x)
  let ?st = "st\<lparr>identifiers := identifiers st @ [(n, i)], names := names st @ [(i, n)]\<rparr>"
  have a: "n \<notin> fst ` set (identifiers st)" using Cons.prems(1) x by auto
  have b: "i \<notin> fst ` set (names st)" using Cons.prems(2) x by auto
  have step: "load_identifier st (JArray [JString n, JNumber (uint i)]) = Inr ?st"
    by (simp add: load_identifier_encoded update_absent[OF a] update_absent[OF b])
  have "distinct (map fst (identifiers ?st) @ map fst xs)" using Cons.prems(1) x by simp
  moreover have "distinct (map fst (names ?st) @ map snd xs)" using Cons.prems(2) x by simp
  ultimately have "fold_err load_identifier ?st
      (map (\<lambda>(name, id). JArray [JString name, JNumber (uint id)]) xs) =
      Inr (?st\<lparr>identifiers := identifiers ?st @ xs,
               names := names ?st @ map (\<lambda>e. (snd e, fst e)) xs\<rparr>)"
    by (rule Cons.IH)
  then show ?case using step by (simp add: x)
qed

text \<open>What the inner loop of the constructor does with the ids of one fingerprint.\<close>

definition record_ids :: "64 word \<Rightarrow> Index \<Rightarrow> 16 word list \<Rightarrow> Index" where
  "record_ids h st ids = foldl (\<lambda>s i. record_hash i s h) st ids"

lemma load_ids:
  "fold_err (load_id h) st (map (\<lambda>id. JNumber (uint id)) ids) = Inr (record_ids h st ids)"
proof (induction ids arbitrary: st)
  case Nil
  then show ?case by (simp add: record_ids_def)
next
  case (Cons i ids)
  have "load_id h st (JNumber (uint i)) = Inr (record_hash i st h)"
    by (simp add: load_id_def bind_def as_int64_uint16 del: as_int64.simps)
  then show ?case using Cons.IH[of "record_hash i st h"] by (simp add: record_ids_def)
qed

lemma load_entry_encoded:
  assumes "h < mod_p"
  shows "load_entry st (JArray [JNumber (uint h), JArray (map (\<lambda>id. JNumber (uint id)) ids)]) =
           Inr (record_ids h st ids)"
  using cast_32_lossless[OF assms]
  by (simp add: load_entry_def bind_def array_elem_def as_int64_hash[OF assms] load_ids
           del: as_int64.simps)

lemma load_entries:
  "\<forall>e \<in> set es. fst e < mod_p \<Longrightarrow>
   fold_err load_entry st
      (map (\<lambda>(hash, ids). JArray [JNumber (uint hash), JArray (map (\<lambda>id. JNumber (uint id)) ids)]) es) =
     Inr (foldl (\<lambda>s e. record_ids (fst e) s (snd e)) st es)"
proof (induction es arbitrary: st)
  case Nil
  then show ?case by simp
next
  case (Cons e es)
  obtain h ids where e: "e = (h, ids)" by (cases e)
  have "h < mod_p" using Cons.prems e by simp
  from load_entry_encoded[OF this, of st ids] Cons.IH[of "record_ids h st ids"] Cons.prems
  show ?case by (simp add: e)
qed

lemma foldl_set_insert_sorted:
  "sorted ids \<Longrightarrow> distinct ids \<Longrightarrow> foldl (\<lambda>s i. set_insert i s) [] ids = ids"
proof (induction ids rule: rev_induct)
  case Nil
  then show ?case by simp
next
  case (snoc x ys)
  have s: "sorted ys" and le: "\<forall>y \<in> set ys. y \<le> x" using snoc.prems(1) by (auto simp: sorted_append)
  have d: "distinct ys" and nx: "x \<notin> set ys" using snoc.prems(2) by auto
  have "foldl (\<lambda>s i. set_insert i s) [] ys = ys" using s d by (rule snoc.IH)
  then have "foldl (\<lambda>s i. set_insert i s) [] (ys @ [x]) = set_insert x ys" by simp
  also have "\<dots> = insort x ys" using nx by (simp add: set_insert_def insort_insert_insort)
  also have "\<dots> = ys @ [x]" using s le by (rule sorted_insort_is_snoc)
  finally show ?case .
qed

lemma record_ids_frame [simp]:
  "identifiers (record_ids h st ids) = identifiers st"
  "names (record_ids h st ids) = names st"
  "idx_k (record_ids h st ids) = idx_k st"
  "idx_w (record_ids h st ids) = idx_w st"
  unfolding record_ids_def by (induction ids arbitrary: st) simp_all

lemma record_ids_Cons: "record_ids h st (i # ids) = record_ids h (record_hash i st h) ids"
  by (simp add: record_ids_def)

lemma index_record_hash:
  "index (record_hash i st h) = AList.update h (set_insert i (inverted st h)) (index st)"
  by (simp add: record_hash_def insert_at_eq inverted_def)

lemma index_record_ids:
  "ids \<noteq> [] \<Longrightarrow>
   index (record_ids h st ids) =
     AList.update h (foldl (\<lambda>s i. set_insert i s) (inverted st h) ids) (index st)"
proof (induction ids arbitrary: st)
  case Nil
  then show ?case by simp
next
  case (Cons i ids)
  show ?case
  proof (cases "ids = []")
    case True
    then show ?thesis by (simp add: record_ids_def index_record_hash)
  next
    case False
    have inv: "inverted (record_hash i st h) h = set_insert i (inverted st h)"
      by (simp add: inverted_record_hash)
    show ?thesis
      unfolding record_ids_Cons Cons.IH[OF False] inv index_record_hash by simp
  qed
qed

lemma index_record_ids_fresh:
  assumes "h \<notin> fst ` set (index st)" "ids \<noteq> []" "sorted ids" "distinct ids"
  shows "index (record_ids h st ids) = index st @ [(h, ids)]"
proof -
  have "map_of (index st) h = None" using assms(1) by (simp add: map_of_eq_None_iff)
  then have "inverted st h = []" by (simp add: inverted_def)
  then show ?thesis
    using assms by (simp add: index_record_ids foldl_set_insert_sorted update_absent)
qed

lemma index_replay:
  "distinct (map fst (index st) @ map fst es) \<Longrightarrow>
   \<forall>e \<in> set es. sorted (snd e) \<and> distinct (snd e) \<and> snd e \<noteq> [] \<Longrightarrow>
   index (foldl (\<lambda>s e. record_ids (fst e) s (snd e)) st es) = index st @ es"
proof (induction es arbitrary: st)
  case Nil
  then show ?case by simp
next
  case (Cons e es)
  let ?st = "record_ids (fst e) st (snd e)"
  have "fst e \<notin> fst ` set (index st)" using Cons.prems(1) by auto
  then have i: "index ?st = index st @ [(fst e, snd e)]"
    using Cons.prems(2) by (intro index_record_ids_fresh) simp_all
  have "distinct (map fst (index ?st) @ map fst es)" using Cons.prems(1) by (simp add: i)
  moreover have "\<forall>e \<in> set es. sorted (snd e) \<and> distinct (snd e) \<and> snd e \<noteq> []"
    using Cons.prems(2) by simp
  ultimately have "index (foldl (\<lambda>s e. record_ids (fst e) s (snd e)) ?st es) = index ?st @ es"
    by (rule Cons.IH)
  then show ?case by (simp add: i)
qed

lemma forward_set_record_ids:
  "set (forward_set (record_ids h st ids) d) =
     set (forward_set st d) \<union> (if d \<in> set ids then {h} else {})"
  unfolding record_ids_def
  by (induction ids arbitrary: st) (auto simp: forward_set_record_hash set_set_insert)

lemma forward_set_replay:
  "set (forward_set (foldl (\<lambda>s e. record_ids (fst e) s (snd e)) st es) d) =
     set (forward_set st d) \<union> {h. \<exists>ids. (h, ids) \<in> set es \<and> d \<in> set ids}"
proof (induction es arbitrary: st)
  case Nil
  then show ?case by simp
next
  case (Cons e es)
  obtain h ids where e: "e = (h, ids)" by (cases e)
  show ?case
    unfolding foldl_Cons Cons.IH e by (auto simp: forward_set_record_ids split: if_splits)
qed

lemma groups_inv_record_ids: "groups_inv st \<Longrightarrow> groups_inv (record_ids h st ids)"
  unfolding record_ids_def
  by (induction ids arbitrary: st) (simp_all add: groups_inv_record_hash)

lemma groups_inv_replay:
  "groups_inv st \<Longrightarrow> groups_inv (foldl (\<lambda>s e. record_ids (fst e) s (snd e)) st es)"
  by (induction es arbitrary: st) (simp_all add: groups_inv_record_ids)

lemma replay_frame [simp]:
  "identifiers (foldl (\<lambda>s e. record_ids (fst e) s (snd e)) st es) = identifiers st"
  "names (foldl (\<lambda>s e. record_ids (fst e) s (snd e)) st es) = names st"
  "idx_k (foldl (\<lambda>s e. record_ids (fst e) s (snd e)) st es) = idx_k st"
  "idx_w (foldl (\<lambda>s e. record_ids (fst e) s (snd e)) st es) = idx_w st"
  by (induction es arbitrary: st) simp_all

lemma groups_inv_forward_set:
  assumes "groups_inv st"
  shows "sorted (forward_set st d) \<and> distinct (forward_set st d)"
proof (cases "map_of (groups st) d")
  case None
  then show ?thesis by (simp add: forward_set_def)
next
  case (Some g)
  then have "(d, g) \<in> set (groups st)" by (rule map_of_SomeD)
  then have "sorted g \<and> distinct g" using assms unfolding groups_inv_def by fastforce
  then show ?thesis using Some by (simp add: forward_set_def)
qed

lemma getPair_fst:
  "fst (getPair idx a b) =
     \<lparr>left = a, right = b,
      covered = of_nat (length (set_intersection (forward_set idx (resolved idx a))
                                                (forward_set idx (resolved idx b)))),
      leftTotal = of_nat (length (forward_set idx (resolved idx a))),
      rightTotal = of_nat (length (forward_set idx (resolved idx b)))\<rparr>"
  unfolding getPair_unfold Let_def getPair_x getPair_y getPair_A getPair_B by simp

lemma make_pair_forward_set:
  "make_pair idx t e =
     (case map_of (names idx) (fst e) of
        None \<Rightarrow> Inl OutOfRange
      | Some name \<Rightarrow>
          Inr \<lparr>left = ''external'', right = name, covered = snd e, leftTotal = t,
               rightTotal = of_nat (length (forward_set idx (fst e)))\<rparr>)"
  by (cases e) (simp add: make_pair_def forward_set_def split: option.splits)

lemma iteration_distinct_snd:
  assumes "iteration m xs" "distinct (map snd m)"
  shows "distinct (map snd xs)"
proof -
  from assms(1) have d: "distinct (map fst xs)" and s: "set xs = set m"
    unfolding iteration_def by blast+
  have "distinct xs" using d by (rule distinct_map[THEN iffD1, THEN conjunct1])
  moreover have "inj_on snd (set m)" using assms(2) by (simp add: distinct_map)
  ultimately show ?thesis using s by (simp add: distinct_map)
qed

lemma iteration_map_of:
  assumes "iteration m xs" "distinct (map fst m)"
  shows "map_of xs = map_of m"
proof -
  from assms(1) have d: "distinct (map fst xs)" and s: "set xs = set m"
    unfolding iteration_def by blast+
  show ?thesis using d assms(2) s by (simp add: map_of_inject_set)
qed

lemma names_of_identifiers:
  assumes "distinct (map snd xs)" "e \<in> set xs"
  shows "map_of (map (\<lambda>e. (snd e, fst e)) xs) (snd e) = Some (fst e)"
proof -
  have "distinct (map fst (map (\<lambda>e. (snd e, fst e)) xs))" using assms(1) by (simp add: comp_def)
  moreover have "(snd e, fst e) \<in> set (map (\<lambda>e. (snd e, fst e)) xs)" using assms(2) by force
  ultimately show ?thesis by (rule map_of_is_SomeI)
qed

lemma names_map_of_cong:
  assumes "distinct (map snd xs)" "distinct (map snd ys)" "set xs = set ys"
  shows "map_of (map (\<lambda>e. (snd e, fst e)) xs) = map_of (map (\<lambda>e. (snd e, fst e)) ys)"
proof -
  have "distinct (map fst (map (\<lambda>e. (snd e, fst e)) xs))" using assms(1) by (simp add: comp_def)
  moreover have "distinct (map fst (map (\<lambda>e. (snd e, fst e)) ys))" using assms(2) by (simp add: comp_def)
  moreover have "set (map (\<lambda>e. (snd e, fst e)) xs) = set (map (\<lambda>e. (snd e, fst e)) ys)"
    using assms(3) by simp
  ultimately show ?thesis by (simp only: map_of_inject_set)
qed

lemma round_trip_structure:
  assumes inv: "index_inv idx"
    and it1: "iteration (identifiers idx) sIdentifiers"
    and it2: "iteration (index idx) sIndex"
  shows "\<exists>idx'. Index_of_json (serialize idx sIdentifiers sIndex) = Inr idx' \<and>
           index idx' = sIndex \<and> identifiers idx' = sIdentifiers \<and>
           names idx' = map (\<lambda>e. (snd e, fst e)) sIdentifiers \<and>
           idx_k idx' = idx_k idx \<and> idx_w idx' = idx_w idx \<and>
           (\<forall>d. forward_set idx' d = forward_set idx d)"
proof -
  let ?ids = "identifiers idx"
  let ?st0 = "\<lparr>index = [], groups = [], identifiers = [], names = [],
              idx_k = idx_k idx, idx_w = idx_w idx\<rparr>"
  let ?st1 = "\<lparr>index = [], groups = [], identifiers = sIdentifiers,
              names = map (\<lambda>e. (snd e, fst e)) sIdentifiers, idx_k = idx_k idx, idx_w = idx_w idx\<rparr>"
  let ?R = "foldl (\<lambda>s e. record_ids (fst e) s (snd e)) ?st1 sIndex"
  from inv have len: "length ?ids \<le> 65536"
    and sn: "map snd ?ids = map of_nat [0..<length ?ids]"
    and dk: "distinct (map fst (index idx))"
    and ent: "\<And>e. e \<in> set (index idx) \<Longrightarrow>
        sorted (snd e) \<and> distinct (snd e) \<and> snd e \<noteq> [] \<and> fst e < mod_p"
    and g: "groups_inv idx" and mir: "mirror idx"
    unfolding index_inv_def ids_inv_def inverted_inv_def by blast+
  from it1 have d1: "distinct (map fst sIdentifiers)" unfolding iteration_def by blast
  from it2 have d2: "distinct (map fst sIndex)" and s2: "set sIndex = set (index idx)"
    unfolding iteration_def by blast+
  have ds0: "distinct (map snd ?ids)" unfolding sn using len by (rule distinct_of_nat_16)
  have ds: "distinct (map snd sIdentifiers)" using it1 ds0 by (rule iteration_distinct_snd)
  have ent2: "\<And>e. e \<in> set sIndex \<Longrightarrow>
        sorted (snd e) \<and> distinct (snd e) \<and> snd e \<noteq> [] \<and> fst e < mod_p"
    using ent s2 by simp
  have l1: "fold_err load_identifier ?st0
      (map (\<lambda>(name, id). JArray [JString name, JNumber (uint id)]) sIdentifiers) = Inr ?st1"
    using load_identifiers[of ?st0 sIdentifiers] d1 ds by simp
  have l2: "fold_err load_entry ?st1
      (map (\<lambda>(hash, ids). JArray [JNumber (uint hash), JArray (map (\<lambda>id. JNumber (uint id)) ids)])
           sIndex) = Inr ?R"
    using ent2 by (intro load_entries) blast
  have load: "Index_of_json (serialize idx sIdentifiers sIndex) = Inr ?R"
    by (simp add: Index_of_json_def serialize_def bind_def at_key_def as_int64_uint16 l1 l2
             del: as_int64.simps)
  have i: "index ?R = sIndex"
    using index_replay[of ?st1 sIndex] d2 ent2 by simp
  have fs: "forward_set ?R x = forward_set idx x" for x
  proof -
    have "forward_set ?st1 x = []" by (simp add: forward_set_def)
    then have "set (forward_set ?R x) = {h. \<exists>ids. (h, ids) \<in> set sIndex \<and> x \<in> set ids}"
      by (simp add: forward_set_replay)
    also have "\<dots> = {h. \<exists>ids. (h, ids) \<in> set (index idx) \<and> x \<in> set ids}"
      by (simp only: s2)
    also have "\<dots> = {h. x \<in> set (inverted idx h)}"
    proof -
      have "(\<exists>ids. (h, ids) \<in> set (index idx) \<and> x \<in> set ids) \<longleftrightarrow> x \<in> set (inverted idx h)" for h
      proof (cases "map_of (index idx) h")
        case None
        then have "h \<notin> fst ` set (index idx)" by (simp add: map_of_eq_None_iff)
        then show ?thesis using None by (force simp: inverted_def)
      next
        case (Some s)
        then have "\<And>ids. (h, ids) \<in> set (index idx) \<longleftrightarrow> ids = s"
          using dk by (metis map_of_is_SomeI map_of_SomeD option.inject)
        then show ?thesis using Some by (simp add: inverted_def)
      qed
      then show ?thesis by simp
    qed
    also have "\<dots> = set (forward_set idx x)" using mir unfolding mirror_def by auto
    finally have e: "set (forward_set ?R x) = set (forward_set idx x)" .
    have "groups_inv ?st1" by (simp add: groups_inv_def)
    then have "groups_inv ?R" by (rule groups_inv_replay)
    then have "sorted (forward_set ?R x)" "distinct (forward_set ?R x)"
      using groups_inv_forward_set by blast+
    moreover have "sorted (forward_set idx x)" "distinct (forward_set idx x)"
      using groups_inv_forward_set[OF g] by blast+
    ultimately show ?thesis using e by (intro sorted_distinct_set_unique)
  qed
  have "identifiers ?R = sIdentifiers" "names ?R = map (\<lambda>e. (snd e, fst e)) sIdentifiers"
    "idx_k ?R = idx_k idx" "idx_w ?R = idx_w idx"
    by simp_all
  then show ?thesis using load i fs by blast
qed

text \<open>
  The entry of the result of \<open>matchTokens\<close> for one key of \<open>sharedHashes\<close>, when the id has
  a name.
\<close>

definition entry_of :: "Index \<Rightarrow> 32 word \<Rightarrow> 16 word \<times> 32 word \<Rightarrow> Pair" where
  "entry_of idx t e =
     \<lparr>left = ''external'',
      right = (case map_of (names idx) (fst e) of None \<Rightarrow> [] | Some name \<Rightarrow> name),
      covered = snd e, leftTotal = t,
      rightTotal = of_nat (length (forward_set idx (fst e)))\<rparr>"

lemma collect_entries:
  assumes "\<forall>e \<in> set sh. map_of (names idx) (fst e) \<noteq> None"
  shows "collect (make_pair idx t) sh = Inr (map (entry_of idx t) sh)"
  using assms
proof (induction sh)
  case Nil
  then show ?case by simp
next
  case (Cons e sh)
  from Cons.prems obtain name where n: "map_of (names idx) (fst e) = Some name" by auto
  have m: "make_pair idx t e = Inr (entry_of idx t e)"
    by (simp add: make_pair_forward_set entry_of_def n)
  have "collect (make_pair idx t) sh = Inr (map (entry_of idx t) sh)"
    using Cons.prems by (intro Cons.IH) simp
  then show ?case using m by simp
qed

lemma map_of_increment:
  "map_of (increment sh i) =
     (map_of sh)(i \<mapsto> (case map_of sh i of None \<Rightarrow> 0 | Some c \<Rightarrow> c) + 1)"
  by (simp add: increment_def subscript_def update_conv' split: option.splits)

lemma foldl_increment_cong:
  "map_of sh = map_of sh' \<Longrightarrow> map_of (foldl increment sh ids) = map_of (foldl increment sh' ids)"
proof (induction ids arbitrary: sh sh')
  case Nil
  then show ?case by simp
next
  case (Cons i ids)
  have "map_of (increment sh i) = map_of (increment sh' i)"
    unfolding map_of_increment Cons.prems ..
  then show ?case unfolding foldl_Cons by (rule Cons.IH)
qed

lemma count_hash_snd:
  "snd (count_hash idx (t, sh) h) =
     (case map_of (index idx) h of None \<Rightarrow> sh | Some ids \<Rightarrow> foldl increment sh ids)"
  by (simp add: count_hash_def)

lemma count_hash_cong:
  assumes a: "map_of sh = map_of sh'" and b: "map_of (index idx) = map_of (index idx')"
  shows "map_of (snd (count_hash idx (t, sh) h)) = map_of (snd (count_hash idx' (t', sh') h))"
proof (cases "map_of (index idx') h")
  case None
  then show ?thesis unfolding count_hash_snd b by (simp add: a)
next
  case (Some ids)
  then show ?thesis unfolding count_hash_snd b by (simp add: foldl_increment_cong[OF a])
qed

lemma foldl_count_hash_cong:
  assumes "map_of (index idx) = map_of (index idx')"
  shows "map_of sh = map_of sh' \<Longrightarrow>
    map_of (snd (foldl (count_hash idx) (t, sh) fps)) =
    map_of (snd (foldl (count_hash idx') (t', sh') fps))"
proof (induction fps arbitrary: t t' sh sh')
  case Nil
  then show ?case by simp
next
  case (Cons h fps)
  obtain t1 sh1 where c: "count_hash idx (t, sh) h = (t1, sh1)" by (cases "count_hash idx (t, sh) h")
  obtain t1' sh1' where c': "count_hash idx' (t', sh') h = (t1', sh1')"
    by (cases "count_hash idx' (t', sh') h")
  have "map_of sh1 = map_of sh1'"
    using count_hash_cong[OF Cons.prems assms, of t h t'] unfolding c c' by simp
  from Cons.IH[OF this, of t1 t1'] show ?case unfolding foldl_Cons c c' .
qed

text \<open>
  What \<open>matchTokens\<close> returns on an index whose registry is in order: the entries of the
  final \<open>sharedHashes\<close>, whose keys are the registered ids.
\<close>

lemma matchTokens_entries:
  assumes r: "registry_ok idx"
    and fp: "fingerprints (idx_k idx) (idx_w idx) toks = Inr fps"
  shows "\<exists>sh. matchTokens idx toks = Inr (map (entry_of idx (of_nat (length fps))) sh) \<and>
           sh = snd (foldl (count_hash idx) (0, map (\<lambda>e. (snd e, 0)) (identifiers idx)) fps) \<and>
           map fst sh = map snd (identifiers idx) \<and>
           map right (map (entry_of idx (of_nat (length fps))) sh) = map fst (identifiers idx)"
proof -
  let ?ids = "identifiers idx"
  let ?sh0 = "foldl (\<lambda>m entry. AList.update (snd entry) (0 :: 32 word) m) [] ?ids"
  from r have ds: "distinct (map snd ?ids)"
    and nm: "\<And>e. e \<in> set ?ids \<Longrightarrow> map_of (names idx) (snd e) = Some (fst e)"
    and reg: "\<And>e. e \<in> set (index idx) \<Longrightarrow> set (snd e) \<subseteq> snd ` set ?ids"
    unfolding registry_ok_def by blast+
  have sh0: "?sh0 = map (\<lambda>e. (snd e, 0)) ?ids"
    using sharedHashes_init[OF ds, of "[]"] by simp
  have keys0: "map fst ?sh0 = map snd ?ids" unfolding sh0 by (simp add: comp_def)
  then have k0: "fst ` set ?sh0 = snd ` set ?ids" by (metis set_map)
  obtain t sh where fold: "foldl (count_hash idx) (0, ?sh0) fps = (t, sh)"
    by (cases "foldl (count_hash idx) (0, ?sh0) fps")
  have "\<forall>e \<in> set (index idx). set (snd e) \<subseteq> fst ` set ?sh0" using reg k0 by simp
  from foldl_count_hash[OF this, of 0 fps] fold
  have t: "t = of_nat (length fps)" and keys: "map fst sh = map snd ?ids"
    using keys0 by simp_all
  have named: "\<forall>e \<in> set sh. map_of (names idx) (fst e) \<noteq> None"
  proof
    fix e assume "e \<in> set sh"
    then have "fst e \<in> set (map fst sh)" by simp
    then have "fst e \<in> snd ` set ?ids" unfolding keys by simp
    then obtain e' where "e' \<in> set ?ids" "fst e = snd e'" by auto
    then show "map_of (names idx) (fst e) \<noteq> None" using nm by simp
  qed
  have m: "matchTokens idx toks = Inr (map (entry_of idx t) sh)"
    using fp fold collect_entries[OF named, of t] by (simp add: matchTokens_def)
  have "map right (map (entry_of idx t) sh) =
      map (\<lambda>i. case map_of (names idx) i of None \<Rightarrow> [] | Some name \<Rightarrow> name) (map fst sh)"
    by (simp add: entry_of_def comp_def)
  also have "\<dots> = map (\<lambda>i. case map_of (names idx) i of None \<Rightarrow> [] | Some name \<Rightarrow> name) (map snd ?ids)"
    by (simp only: keys)
  also have "\<dots> = map fst ?ids" using nm by simp
  finally have rt: "map right (map (entry_of idx t) sh) = map fst ?ids" .
  have "sh = snd (foldl (count_hash idx) (0, map (\<lambda>e. (snd e, 0)) ?ids) fps)"
    using fold unfolding sh0 by simp
  then show ?thesis using m keys rt unfolding t by (intro exI[of _ sh] conjI)
qed

text \<open>
  Two indexes that agree as maps, whatever the order of their containers, give the same
  \<open>matchTokens\<close> entries, in some order.
\<close>

lemma matchTokens_up_to_order:
  assumes r: "registry_ok idx" and r': "registry_ok idx'"
    and ids: "set (identifiers idx') = set (identifiers idx)"
    and ix: "map_of (index idx') = map_of (index idx)"
    and kw: "idx_k idx' = idx_k idx" "idx_w idx' = idx_w idx"
    and fs: "\<forall>d. forward_set idx' d = forward_set idx d"
  shows "(\<exists>e. matchTokens idx toks = Inl e \<and> matchTokens idx' toks = Inl e) \<or>
         (\<exists>ps ps'. matchTokens idx toks = Inr ps \<and> matchTokens idx' toks = Inr ps' \<and>
                    set ps' = set ps \<and> distinct ps \<and> distinct ps')"
proof (cases "fingerprints (idx_k idx) (idx_w idx) toks")
  case (Inl e)
  then have "matchTokens idx toks = Inl e" "matchTokens idx' toks = Inl e"
    by (simp_all add: matchTokens_def kw)
  then show ?thesis by blast
next
  case (Inr fps)
  let ?t = "of_nat (length fps) :: 32 word"
  let ?s0 = "map (\<lambda>e. (snd e, 0 :: 32 word)) (identifiers idx)"
  let ?s0' = "map (\<lambda>e. (snd e, 0 :: 32 word)) (identifiers idx')"
  have fp': "fingerprints (idx_k idx') (idx_w idx') toks = Inr fps" using Inr by (simp add: kw)
  from matchTokens_entries[OF r Inr] obtain sh where
    m: "matchTokens idx toks = Inr (map (entry_of idx ?t) sh)"
    and sh: "sh = snd (foldl (count_hash idx) (0, ?s0) fps)"
    and keys: "map fst sh = map snd (identifiers idx)"
    and rt: "map right (map (entry_of idx ?t) sh) = map fst (identifiers idx)" by blast
  from matchTokens_entries[OF r' fp'] obtain sh' where
    m': "matchTokens idx' toks = Inr (map (entry_of idx' ?t) sh')"
    and sh': "sh' = snd (foldl (count_hash idx') (0, ?s0') fps)"
    and keys': "map fst sh' = map snd (identifiers idx')"
    and rt': "map right (map (entry_of idx' ?t) sh') = map fst (identifiers idx')" by blast
  from r have d: "distinct (map fst (identifiers idx))" and ds: "distinct (map snd (identifiers idx))"
    and nm: "\<And>e. e \<in> set (identifiers idx) \<Longrightarrow> map_of (names idx) (snd e) = Some (fst e)"
    unfolding registry_ok_def by blast+
  from r' have d': "distinct (map fst (identifiers idx'))"
    and ds': "distinct (map snd (identifiers idx'))"
    and nm': "\<And>e. e \<in> set (identifiers idx') \<Longrightarrow> map_of (names idx') (snd e) = Some (fst e)"
    unfolding registry_ok_def by blast+
  have "distinct (map fst ?s0)" "distinct (map fst ?s0')" using ds ds' by (simp_all add: comp_def)
  moreover have "set ?s0 = set ?s0'" using ids by simp
  ultimately have z: "map_of ?s0 = map_of ?s0'" by (simp only: map_of_inject_set)
  have "map_of sh = map_of sh'"
    unfolding sh sh' using ix[symmetric] z by (rule foldl_count_hash_cong)
  moreover have "distinct (map fst sh)" "distinct (map fst sh')"
    using ds ds' by (simp_all only: keys keys')
  ultimately have same: "set sh = set sh'" by (simp only: map_of_inject_set)
  have ent: "entry_of idx' ?t e = entry_of idx ?t e" if "e \<in> set sh" for e
  proof -
    from that have "fst e \<in> set (map fst sh)" by simp
    then have "fst e \<in> snd ` set (identifiers idx)" unfolding keys by simp
    then obtain x where x: "x \<in> set (identifiers idx)" "fst e = snd x" by auto
    have "map_of (names idx) (fst e) = Some (fst x)" using nm[OF x(1)] x(2) by simp
    moreover have "map_of (names idx') (fst e) = Some (fst x)"
      using nm'[of x] x ids by simp
    ultimately show ?thesis using fs by (simp add: entry_of_def)
  qed
  have "set (map (entry_of idx' ?t) sh') = entry_of idx' ?t ` set sh" using same by simp
  also have "\<dots> = entry_of idx ?t ` set sh" using ent by (intro image_cong) simp_all
  finally have e: "set (map (entry_of idx' ?t) sh') = set (map (entry_of idx ?t) sh)" by simp
  have "distinct (map right (map (entry_of idx ?t) sh))" using d by (simp only: rt)
  then have d1: "distinct (map (entry_of idx ?t) sh)"
    by (rule distinct_map[THEN iffD1, THEN conjunct1])
  have "distinct (map right (map (entry_of idx' ?t) sh'))" using d' by (simp only: rt')
  then have d2: "distinct (map (entry_of idx' ?t) sh')"
    by (rule distinct_map[THEN iffD1, THEN conjunct1])
  show ?thesis
  proof (rule disjI2, intro exI conjI)
    show "matchTokens idx toks = Inr (map (entry_of idx ?t) sh)" by (rule m)
    show "matchTokens idx' toks = Inr (map (entry_of idx' ?t) sh')" by (rule m')
    show "set (map (entry_of idx' ?t) sh') = set (map (entry_of idx ?t) sh)" by (rule e)
    show "distinct (map (entry_of idx ?t) sh)" by (rule d1)
    show "distinct (map (entry_of idx' ?t) sh')" by (rule d2)
  qed
qed

text \<open>
  Beyond \<open>65536\<close> names. Documents that tokenize to nothing register their names and add
  no fingerprint.
\<close>

lemma addToGroup_no_tokens:
  "idx_w idx \<noteq> 0 \<Longrightarrow> addToGroup idx name [] = Inr (snd (resolve idx name))"
  by (simp add: addToGroup_def fingerprints_empty split: prod.splits)

lemma addToGroup_all_no_tokens:
  "idx_w idx \<noteq> 0 \<Longrightarrow> \<forall>d \<in> set docs. snd d = [] \<Longrightarrow>
   addToGroup_all idx docs = Inr (foldl (\<lambda>s d. snd (resolve s (fst d))) idx docs)"
proof (induction docs arbitrary: idx)
  case Nil
  then show ?case by simp
next
  case (Cons doc docs)
  obtain name where doc: "doc = (name, [])" using Cons.prems(2) by (cases doc) simp
  have w: "idx_w (snd (resolve idx name)) \<noteq> 0" using Cons.prems(1) by (simp add: resolve_views)
  have "addToGroup_all (snd (resolve idx name)) docs =
      Inr (foldl (\<lambda>s d. snd (resolve s (fst d))) (snd (resolve idx name)) docs)"
    using w Cons.prems(2) by (intro Cons.IH) simp_all
  then show ?case using Cons.prems(1) by (simp add: doc addToGroup_no_tokens)
qed

lemma resolve_keys:
  "map fst (identifiers (snd (resolve idx name))) =
     (if name \<in> set (map fst (identifiers idx)) then map fst (identifiers idx)
      else map fst (identifiers idx) @ [name])"
proof (cases "map_of (identifiers idx) name")
  case None
  then have "name \<notin> fst ` set (identifiers idx)" by (simp add: map_of_eq_None_iff)
  then show ?thesis using None by (simp add: resolve_def Let_def update_keys)
next
  case (Some i)
  then have "name \<in> fst ` set (identifiers idx)"
    by (metis map_of_eq_None_iff option.distinct(1))
  then show ?thesis using Some by (simp add: resolve_def)
qed

lemma registered_keys:
  "distinct (map fst (identifiers idx) @ map fst docs) \<Longrightarrow>
   map fst (identifiers (foldl (\<lambda>s d. snd (resolve s (fst d))) idx docs)) =
     map fst (identifiers idx) @ map fst docs"
proof (induction docs arbitrary: idx)
  case Nil
  then show ?case by simp
next
  case (Cons doc docs)
  let ?idx1 = "snd (resolve idx (fst doc))"
  have k: "map fst (identifiers ?idx1) = map fst (identifiers idx) @ [fst doc]"
    using Cons.prems by (simp add: resolve_keys)
  have "distinct (map fst (identifiers ?idx1) @ map fst docs)" using Cons.prems by (simp add: k)
  from Cons.IH[OF this] show ?case by (simp add: k)
qed

lemma registered_frame:
  "index (foldl (\<lambda>s d. snd (resolve s (fst d))) idx docs) = index idx \<and>
   idx_w (foldl (\<lambda>s d. snd (resolve s (fst d))) idx docs) = idx_w idx"
  by (induction docs arbitrary: idx) (simp_all add: resolve_views)

text \<open>The loop of the constructor over the identifiers array, on any array \<open>serialize\<close> writes.\<close>

definition load_name :: "Index \<Rightarrow> string \<times> 16 word \<Rightarrow> Index" where
  "load_name st e =
     st\<lparr>identifiers := AList.update (fst e) (snd e) (identifiers st),
        names := AList.update (snd e) (fst e) (names st)\<rparr>"

lemma load_names:
  "fold_err load_identifier st (map (\<lambda>(name, id). JArray [JString name, JNumber (uint id)]) xs) =
     Inr (foldl load_name st xs)"
proof (induction xs arbitrary: st)
  case Nil
  then show ?case by simp
next
  case (Cons x xs)
  obtain n i where x: "x = (n, i)" by (cases x)
  have "load_identifier st (JArray [JString n, JNumber (uint i)]) = Inr (load_name st (n, i))"
    by (simp add: load_identifier_encoded load_name_def)
  then show ?case using Cons.IH[of "load_name st (n, i)"] by (simp add: x)
qed

lemma load_name_frame:
  "index (foldl load_name st xs) = index st \<and> groups (foldl load_name st xs) = groups st \<and>
   idx_k (foldl load_name st xs) = idx_k st \<and> idx_w (foldl load_name st xs) = idx_w st"
  by (induction xs arbitrary: st) (simp_all add: load_name_def)

lemma load_name_identifiers:
  "distinct (map fst (identifiers st) @ map fst xs) \<Longrightarrow>
   identifiers (foldl load_name st xs) = identifiers st @ xs"
proof (induction xs arbitrary: st)
  case Nil
  then show ?case by simp
next
  case (Cons x xs)
  have a: "fst x \<notin> fst ` set (identifiers st)" using Cons.prems by auto
  have i: "identifiers (load_name st x) = identifiers st @ [x]"
    by (simp add: load_name_def update_absent[OF a])
  have "distinct (map fst (identifiers (load_name st x)) @ map fst xs)"
    using Cons.prems by (simp add: i)
  from Cons.IH[OF this] show ?case by (simp add: i)
qed

lemma load_name_last:
  "map_of (names (foldl load_name st (xs @ [x]))) (snd x) = Some (fst x)"
  by (simp add: load_name_def update_conv')

lemma load_name_named:
  "map_of (names st) i \<noteq> None \<or> i \<in> snd ` set xs \<Longrightarrow>
   map_of (names (foldl load_name st xs)) i \<noteq> None"
proof (induction xs arbitrary: st)
  case Nil
  then show ?case by simp
next
  case (Cons x xs)
  have "map_of (names (load_name st x)) i \<noteq> None \<or> i \<in> snd ` set xs"
    using Cons.prems by (auto simp: load_name_def update_conv')
  from Cons.IH[OF this] show ?case by simp
qed

text \<open>\<open>matchTokens\<close> on no tokens, when every registered id has a name.\<close>

lemma sharedHashes_keys:
  "fst ` set (foldl (\<lambda>m entry. AList.update (snd entry) (0 :: 32 word) m) acc xs) =
     fst ` set acc \<union> snd ` set xs"
proof (induction xs arbitrary: acc)
  case Nil
  then show ?case by simp
next
  case (Cons x xs)
  have "fst ` set (AList.update (snd x) (0 :: 32 word) acc) = insert (snd x) (fst ` set acc)"
    using dom_update[of "snd x" "0 :: 32 word" acc] by (simp add: dom_map_of_conv_image_fst)
  then show ?case using Cons.IH[of "AList.update (snd x) 0 acc"] by simp
qed

lemma matchTokens_no_tokens:
  assumes w: "idx_w idx \<noteq> 0"
    and named: "\<forall>e \<in> set (identifiers idx). map_of (names idx) (snd e) \<noteq> None"
  shows "\<exists>ps. matchTokens idx [] = Inr ps \<and>
           right ` set ps =
             (\<lambda>i. case map_of (names idx) i of None \<Rightarrow> [] | Some name \<Rightarrow> name) `
               snd ` set (identifiers idx)"
proof -
  let ?sh0 = "foldl (\<lambda>m entry. AList.update (snd entry) (0 :: 32 word) m) [] (identifiers idx)"
  have keys: "fst ` set ?sh0 = snd ` set (identifiers idx)"
    using sharedHashes_keys[of "[]" "identifiers idx"] by simp
  have "\<forall>e \<in> set ?sh0. map_of (names idx) (fst e) \<noteq> None"
  proof
    fix e assume "e \<in> set ?sh0"
    then have "fst e \<in> fst ` set ?sh0" by (rule imageI)
    then have "fst e \<in> snd ` set (identifiers idx)" unfolding keys .
    then show "map_of (names idx) (fst e) \<noteq> None" using named by auto
  qed
  from collect_entries[OF this, of 0]
  have m: "matchTokens idx [] = Inr (map (entry_of idx 0) ?sh0)"
    using fingerprints_empty[OF w, of "idx_k idx"] by (simp add: matchTokens_def)
  have "right ` set (map (entry_of idx 0) ?sh0) =
      (\<lambda>i. case map_of (names idx) i of None \<Rightarrow> [] | Some name \<Rightarrow> name) ` fst ` set ?sh0"
    by (simp add: entry_of_def image_image)
  then show ?thesis using m unfolding keys by blast
qed

text \<open>
  With \<open>65537\<close> names the last one registered is given id \<open>0\<close> again and takes the place
  of the first in the id-to-name map. A snapshot that lists the first name after the last
  loads into an index whose id \<open>0\<close> is the first name.
\<close>

lemma wrap_round_trip:
  assumes dd: "distinct (map fst docs)" and emp: "\<forall>d \<in> set docs. snd d = []"
    and len: "length docs = 65537" and w: "w \<noteq> 0"
  shows "\<exists>idx idx' ps ps'.
           addToGroup_all (Index_new k w) docs = Inr idx \<and>
           length (identifiers idx) = 65537 \<and>
           map_of (identifiers idx) (fst (hd docs)) = Some 0 \<and>
           map_of (identifiers idx) (fst (last docs)) = Some 0 \<and>
           map_of (names idx) 0 = Some (fst (last docs)) \<and>
           iteration (identifiers idx) (rev (identifiers idx)) \<and>
           iteration (index idx) (index idx) \<and>
           Index_of_json (serialize idx (rev (identifiers idx)) (index idx)) = Inr idx' \<and>
           map_of (names idx') 0 = Some (fst (hd docs)) \<and>
           matchTokens idx [] = Inr ps \<and> matchTokens idx' [] = Inr ps' \<and>
           fst (hd docs) \<in> right ` set ps' \<and> fst (hd docs) \<notin> right ` set ps"
proof -
  let ?reg = "\<lambda>s d. snd (resolve s (fst d))"
  let ?new = "Index_new k w"
  have ne: "docs \<noteq> []" using len by auto
  then obtain docs0 dl where docs: "docs = docs0 @ [dl]" by (cases docs rule: rev_cases) auto
  have len0: "length docs0 = 65536" using len unfolding docs by simp
  have ne0: "docs0 \<noteq> []" using len0 by auto
  define n0 where "n0 = fst (hd docs)"
  define nl where "nl = fst dl"
  have n0: "n0 = fst (hd docs0)" unfolding n0_def docs using ne0 by simp
  have last: "fst (last docs) = nl" unfolding docs nl_def by simp
  have n0_in: "n0 \<in> set (map fst docs0)" unfolding n0 using ne0 by simp
  have nl_out: "nl \<notin> set (map fst docs0)" using dd unfolding docs nl_def by simp
  have neq: "nl \<noteq> n0" using n0_in nl_out by auto
  define idx0 where "idx0 = foldl ?reg ?new docs0"
  define idx where "idx = snd (resolve idx0 nl)"
  have wn: "idx_w ?new \<noteq> 0" using w by (simp add: Index_new_def)
  have e0: "\<forall>d \<in> set docs0. snd d = []" using emp unfolding docs by simp
  have b0: "addToGroup_all ?new docs0 = Inr idx0"
    unfolding idx0_def using wn e0 by (rule addToGroup_all_no_tokens)
  have "addToGroup_all ?new docs = Inr (foldl ?reg ?new docs)"
    using wn emp by (rule addToGroup_all_no_tokens)
  then have b: "addToGroup_all ?new docs = Inr idx"
    unfolding docs idx_def idx0_def nl_def by simp
  have "distinct (map fst (identifiers ?new) @ map fst docs0)"
    using dd unfolding docs by (simp add: Index_new_def)
  from registered_keys[OF this]
  have keys0: "map fst (identifiers idx0) = map fst docs0"
    unfolding idx0_def by (simp add: Index_new_def)
  have l0: "length (identifiers idx0) = 65536"
    using len0 keys0 by (metis length_map)
  have inv0: "index_inv idx0" using b0 l0 by (intro index_inv_built) simp_all
  from inv0 have sn0: "map snd (identifiers idx0) = map of_nat [0..<length (identifiers idx0)]"
    and d0: "distinct (map fst (identifiers idx0))"
    unfolding index_inv_def ids_inv_def by blast+
  have r0: "registry_ok idx0" using inv0 by (rule index_inv_registry_ok)
  then have nm0: "\<And>e. e \<in> set (identifiers idx0) \<Longrightarrow> map_of (names idx0) (snd e) = Some (fst e)"
    unfolding registry_ok_def by blast
  have ine: "identifiers idx0 \<noteq> []" using l0 by auto
  have "fst (hd (identifiers idx0)) = hd (map fst (identifiers idx0))" using ine by (simp add: hd_map)
  also have "\<dots> = n0" unfolding keys0 n0 using ne0 by (simp add: hd_map)
  finally have h1: "fst (hd (identifiers idx0)) = n0" .
  have "snd (hd (identifiers idx0)) = hd (map snd (identifiers idx0))" using ine by (simp add: hd_map)
  also have "\<dots> = hd (map of_nat [0..<65536])" unfolding sn0 l0 ..
  also have "\<dots> = (0 :: 16 word)"
  proof -
    have "[0..<65536] \<noteq> []" by simp
    then have "hd (map of_nat [0..<65536]) = (of_nat (hd [0..<65536]) :: 16 word)" by (rule hd_map)
    also have "hd [0..<65536] = (0 :: nat)" by (rule hd_upt) simp
    finally show ?thesis by simp
  qed
  finally have h2: "snd (hd (identifiers idx0)) = 0" .
  have first0: "hd (identifiers idx0) = (n0, 0)" using h1 h2 by (metis prod.collapse)
  have first_in: "(n0, 0) \<in> set (identifiers idx0)" using ine first0 by (metis hd_in_set)
  have absent: "nl \<notin> fst ` set (identifiers idx0)"
    using nl_out keys0 by (metis set_map)
  then have none: "map_of (identifiers idx0) nl = None" by (simp add: map_of_eq_None_iff)
  have z: "(of_nat (length (identifiers idx0)) :: 16 word) = 0" unfolding l0 by simp
  have ids: "identifiers idx = identifiers idx0 @ [(nl, 0)]"
    unfolding idx_def using none z by (simp add: resolve_def Let_def update_absent[OF absent])
  have nms: "names idx = AList.update 0 nl (names idx0)"
    unfolding idx_def using none z by (simp add: resolve_def Let_def)
  have ix0: "index idx0 = []" and w0: "idx_w idx0 = w"
    unfolding idx0_def using registered_frame[of ?new docs0] by (simp_all add: Index_new_def)
  have ix: "index idx = []" unfolding idx_def using none ix0 by (simp add: resolve_def Let_def)
  have wi: "idx_w idx = w" unfolding idx_def using w0 by simp
  have nmap: "map_of (names idx) = (map_of (names idx0))(0 \<mapsto> nl)"
    unfolding nms by (simp add: update_conv')
  have lenI: "length (identifiers idx) = 65537" unfolding ids using l0 by simp
  have dI: "distinct (map fst (identifiers idx))" unfolding ids using d0 absent by simp
  have first: "hd (identifiers idx) = (n0, 0)" unfolding ids using ine first0 by simp
  have m1: "map_of (identifiers idx) n0 = Some 0"
    using dI by (intro map_of_is_SomeI) (simp_all add: ids first_in)
  have m2: "map_of (identifiers idx) nl = Some 0"
    using dI by (intro map_of_is_SomeI) (simp_all add: ids)
  have m3: "map_of (names idx) 0 = Some nl" unfolding nmap by simp
  have named: "\<forall>e \<in> set (identifiers idx). map_of (names idx) (snd e) \<noteq> None"
  proof
    fix e assume "e \<in> set (identifiers idx)"
    then consider "e = (nl, 0)" | "e \<in> set (identifiers idx0)" unfolding ids by auto
    then show "map_of (names idx) (snd e) \<noteq> None"
    proof cases
      case 1
      then show ?thesis unfolding nmap by simp
    next
      case 2
      then show ?thesis unfolding nmap using nm0[OF 2] by simp
    qed
  qed
  from matchTokens_no_tokens[of idx] wi w named
  obtain ps where ps: "matchTokens idx [] = Inr ps"
    and rps: "right ` set ps =
      (\<lambda>i. case map_of (names idx) i of None \<Rightarrow> [] | Some name \<Rightarrow> name) ` snd ` set (identifiers idx)"
    by auto
  have out: "n0 \<notin> right ` set ps"
  proof
    assume "n0 \<in> right ` set ps"
    then obtain e where e: "e \<in> set (identifiers idx)"
      and v: "n0 = (case map_of (names idx) (snd e) of None \<Rightarrow> [] | Some name \<Rightarrow> name)"
      unfolding rps by auto
    show False
    proof (cases "snd e = 0")
      case True
      then show ?thesis using v neq unfolding nmap by simp
    next
      case False
      then have e0: "e \<in> set (identifiers idx0)" using e unfolding ids by auto
      have "map_of (names idx) (snd e) = Some (fst e)" unfolding nmap using nm0[OF e0] False by simp
      then have "fst e = n0" using v by simp
      then have "(n0, snd e) \<in> set (identifiers idx0)" using e0 by (metis prod.collapse)
      then have "snd e = 0" using first_in d0 by (metis eq_key_imp_eq_value)
      then show False using False by simp
    qed
  qed
  let ?nes = "rev (identifiers idx)"
  have it1: "iteration (identifiers idx) ?nes"
    unfolding iteration_def using dI by (simp add: rev_map[symmetric])
  have it2: "iteration (index idx) (index idx)" unfolding ix iteration_def by simp
  have tl: "identifiers idx = (n0, 0) # tl (identifiers idx)"
    using first lenI by (metis hd_Cons_tl length_0_conv zero_neq_numeral)
  have nes: "?nes = rev (tl (identifiers idx)) @ [(n0, 0)]"
    by (subst tl) simp
  let ?st0 = "\<lparr>index = [], groups = [], identifiers = [], names = [],
              idx_k = idx_k idx, idx_w = idx_w idx\<rparr>"
  define idx' where "idx' = foldl load_name ?st0 ?nes"
  have l1: "fold_err load_identifier ?st0
      (map (\<lambda>(name, id). JArray [JString name, JNumber (uint id)]) ?nes) = Inr idx'"
    unfolding idx'_def by (rule load_names)
  have load: "Index_of_json (serialize idx ?nes (index idx)) = Inr idx'"
    unfolding ix
    by (simp add: Index_of_json_def serialize_def bind_def at_key_def as_int64_uint16 l1
             del: as_int64.simps)
  have wi': "idx_w idx' = w" unfolding idx'_def using load_name_frame[of ?st0 ?nes] wi by simp
  have ids': "identifiers idx' = ?nes"
    unfolding idx'_def using load_name_identifiers[of ?st0 ?nes] dI by (simp add: rev_map[symmetric])
  have m4: "map_of (names idx') 0 = Some n0"
    unfolding idx'_def nes using load_name_last[of ?st0 "rev (tl (identifiers idx))" "(n0, 0)"]
    by simp
  have named': "\<forall>e \<in> set (identifiers idx'). map_of (names idx') (snd e) \<noteq> None"
  proof
    fix e assume "e \<in> set (identifiers idx')"
    then have "snd e \<in> snd ` set ?nes" unfolding ids' by (rule imageI)
    then show "map_of (names idx') (snd e) \<noteq> None"
      unfolding idx'_def by (intro load_name_named) simp
  qed
  from matchTokens_no_tokens[of idx'] wi' w named'
  obtain ps' where ps': "matchTokens idx' [] = Inr ps'"
    and rps': "right ` set ps' =
      (\<lambda>i. case map_of (names idx') i of None \<Rightarrow> [] | Some name \<Rightarrow> name) ` snd ` set (identifiers idx')"
    by auto
  have "(n0, 0) \<in> set (identifiers idx')" unfolding ids' using first_in ids by simp
  then have "(0 :: 16 word) \<in> snd ` set (identifiers idx')" by force
  then have "(case map_of (names idx') 0 of None \<Rightarrow> [] | Some name \<Rightarrow> name) \<in> right ` set ps'"
    unfolding rps' by (rule imageI)
  then have inn: "n0 \<in> right ` set ps'" unfolding m4 by simp
  show ?thesis
  proof (rule exI[of _ idx], rule exI[of _ idx'], rule exI[of _ ps], rule exI[of _ ps'], intro conjI)
    show "addToGroup_all ?new docs = Inr idx" by (rule b)
    show "length (identifiers idx) = 65537" by (rule lenI)
    show "map_of (identifiers idx) (fst (hd docs)) = Some 0" using m1 unfolding n0_def .
    show "map_of (identifiers idx) (fst (last docs)) = Some 0" using m2 unfolding last .
    show "map_of (names idx) 0 = Some (fst (last docs))" using m3 unfolding last .
    show "iteration (identifiers idx) ?nes" by (rule it1)
    show "iteration (index idx) (index idx)" by (rule it2)
    show "Index_of_json (serialize idx ?nes (index idx)) = Inr idx'" by (rule load)
    show "map_of (names idx') 0 = Some (fst (hd docs))" using m4 unfolding n0_def .
    show "matchTokens idx [] = Inr ps" by (rule ps)
    show "matchTokens idx' [] = Inr ps'" by (rule ps')
    show "fst (hd docs) \<in> right ` set ps'" using inn unfolding n0_def .
    show "fst (hd docs) \<notin> right ` set ps" using out unfolding n0_def .
  qed
qed

text \<open>\<open>65537\<close> documents with different names and no tokens.\<close>

definition wrap_name :: "nat \<Rightarrow> string" where
  "wrap_name i = replicate (Suc i) CHR ''a''"

definition wrap_docs :: "(string \<times> 16 word list) list" where
  "wrap_docs = map (\<lambda>i. (wrap_name i, [])) [0..<65537]"

lemma wrap_name_inj: "inj wrap_name"
proof (rule injI)
  fix i j assume "wrap_name i = wrap_name j"
  then have "length (wrap_name i) = length (wrap_name j)" by simp
  then show "i = j" by (simp add: wrap_name_def)
qed

lemma wrap_docs_facts:
  "distinct (map fst wrap_docs)" "\<forall>d \<in> set wrap_docs. snd d = []" "length wrap_docs = 65537"
  "fst (hd wrap_docs) = ''a''" "fst (last wrap_docs) = wrap_name 65536"
proof -
  have m: "map fst wrap_docs = map wrap_name [0..<65537]"
    unfolding wrap_docs_def by (simp add: comp_def)
  have "inj_on wrap_name (set [0..<65537])" using wrap_name_inj by (rule inj_on_subset) simp
  then show "distinct (map fst wrap_docs)" unfolding m by (simp add: distinct_map)
  show "\<forall>d \<in> set wrap_docs. snd d = []" unfolding wrap_docs_def by auto
  show "length wrap_docs = 65537" unfolding wrap_docs_def by simp
  have ne: "[0..<65537] \<noteq> []" by (simp only: upt_eq_Nil_conv) simp
  have "hd wrap_docs = (wrap_name (hd [0..<65537]), [])"
    unfolding wrap_docs_def by (rule hd_map[OF ne])
  also have "hd [0..<65537] = (0 :: nat)" by (rule hd_upt) simp
  finally show "fst (hd wrap_docs) = ''a''" by (simp add: wrap_name_def)
  have "last wrap_docs = (wrap_name (last [0..<65537]), [])"
    unfolding wrap_docs_def by (rule last_map[OF ne])
  also have "last [0..<65537] = (65536 :: nat)" by (simp add: last_upt)
  finally show "fst (last wrap_docs) = wrap_name 65536" by simp
qed

text \<open>
  Claim C7, as amended. Let an index be built from the empty one by \<open>addToGroup\<close> calls that
  registered at most \<open>65536\<close> names (so that no \<open>uint16_t\<close> id was handed out twice), and
  let \<open>serialize\<close> visit the entries of \<open>identifiers\<close> and of \<open>index\<close> in any order.
  Loading the snapshot succeeds, and the loaded index answers every \<open>getPair\<close> query as the
  original does and every \<open>matchTokens\<close> query with the same failure or with the same
  entries, each once, up to the order of the result. As maps, whatever the order of their
  entries, it has the same inverted map and the same name and id maps; it has the same \<open>k\<close>
  and \<open>w\<close> and the same forward set for every id.
\<close>

theorem snapshot_round_trip:
  assumes "addToGroup_all (Index_new k w) docs = Inr idx" "length (identifiers idx) \<le> 65536"
    and "iteration (identifiers idx) sIdentifiers" "iteration (index idx) sIndex"
  shows "\<exists>idx'. Index_of_json (serialize idx sIdentifiers sIndex) = Inr idx' \<and>
           (\<forall>a b. fst (getPair idx' a b) = fst (getPair idx a b)) \<and>
           (\<forall>toks.
              (\<exists>e. matchTokens idx toks = Inl e \<and> matchTokens idx' toks = Inl e) \<or>
              (\<exists>ps ps'. matchTokens idx toks = Inr ps \<and> matchTokens idx' toks = Inr ps' \<and>
                         set ps' = set ps \<and> distinct ps \<and> distinct ps')) \<and>
           map_of (index idx') = map_of (index idx) \<and>
           map_of (identifiers idx') = map_of (identifiers idx) \<and>
           map_of (names idx') = map_of (names idx) \<and>
           idx_k idx' = idx_k idx \<and> idx_w idx' = idx_w idx \<and>
           (\<forall>d. forward_set idx' d = forward_set idx d)"
proof -
  have inv: "index_inv idx" using assms(1,2) by (rule index_inv_built)
  from round_trip_structure[OF inv assms(3,4)]
  obtain idx' where l: "Index_of_json (serialize idx sIdentifiers sIndex) = Inr idx'"
    and i: "index idx' = sIndex" and n: "identifiers idx' = sIdentifiers"
    and nm': "names idx' = map (\<lambda>e. (snd e, fst e)) sIdentifiers"
    and kw: "idx_k idx' = idx_k idx" "idx_w idx' = idx_w idx"
    and fs: "\<forall>d. forward_set idx' d = forward_set idx d"
    by blast
  from inv have len: "length (identifiers idx) \<le> 65536"
    and d: "distinct (map fst (identifiers idx))"
    and sn: "map snd (identifiers idx) = map of_nat [0..<length (identifiers idx)]"
    and nm: "names idx = map (\<lambda>e. (snd e, fst e)) (identifiers idx)"
    and dk: "distinct (map fst (index idx))"
    and reg: "\<And>e. e \<in> set (index idx) \<Longrightarrow> set (snd e) \<subseteq> snd ` set (identifiers idx)"
    unfolding index_inv_def ids_inv_def inverted_inv_def by blast+
  from assms(3) have d1: "distinct (map fst sIdentifiers)"
    and s1: "set sIdentifiers = set (identifiers idx)" unfolding iteration_def by blast+
  from assms(4) have s2: "set sIndex = set (index idx)" unfolding iteration_def by blast
  have ds0: "distinct (map snd (identifiers idx))" unfolding sn using len by (rule distinct_of_nat_16)
  have ds: "distinct (map snd sIdentifiers)" using assms(3) ds0 by (rule iteration_distinct_snd)
  have mi: "map_of (index idx') = map_of (index idx)"
    unfolding i using assms(4) dk by (rule iteration_map_of)
  have mn: "map_of (identifiers idx') = map_of (identifiers idx)"
    unfolding n using assms(3) d by (rule iteration_map_of)
  have mm: "map_of (names idx') = map_of (names idx)"
    unfolding nm nm' using ds ds0 s1 by (rule names_map_of_cong)
  have r: "registry_ok idx" using inv by (rule index_inv_registry_ok)
  have r': "registry_ok idx'"
  proof -
    have "map_of (names idx') (snd e) = Some (fst e)" if "e \<in> set (identifiers idx')" for e
      using that unfolding n nm' by (intro names_of_identifiers[OF ds])
    moreover have "set (snd e) \<subseteq> snd ` set (identifiers idx')" if "e \<in> set (index idx')" for e
      using that reg[of e] unfolding i n s1 s2 by simp
    moreover have "distinct (map fst (identifiers idx'))" "distinct (map snd (identifiers idx'))"
      unfolding n using d1 ds by simp_all
    ultimately show ?thesis unfolding registry_ok_def by blast
  qed
  have res: "resolved idx' = resolved idx" unfolding resolved_def mn ..
  have gp: "fst (getPair idx' a b) = fst (getPair idx a b)" for a b
    unfolding getPair_fst res using fs by simp
  have ids: "set (identifiers idx') = set (identifiers idx)" unfolding n by (rule s1)
  have mt: "(\<exists>e. matchTokens idx toks = Inl e \<and> matchTokens idx' toks = Inl e) \<or>
      (\<exists>ps ps'. matchTokens idx toks = Inr ps \<and> matchTokens idx' toks = Inr ps' \<and>
                 set ps' = set ps \<and> distinct ps \<and> distinct ps')" for toks
    using r r' ids mi kw fs by (rule matchTokens_up_to_order)
  show ?thesis
  proof (intro exI[of _ idx'] conjI allI)
    show "Index_of_json (serialize idx sIdentifiers sIndex) = Inr idx'" by (rule l)
    show "fst (getPair idx' a b) = fst (getPair idx a b)" for a b by (rule gp)
    show "(\<exists>e. matchTokens idx toks = Inl e \<and> matchTokens idx' toks = Inl e) \<or>
      (\<exists>ps ps'. matchTokens idx toks = Inr ps \<and> matchTokens idx' toks = Inr ps' \<and>
                 set ps' = set ps \<and> distinct ps \<and> distinct ps')" for toks by (rule mt)
    show "map_of (index idx') = map_of (index idx)" by (rule mi)
    show "map_of (identifiers idx') = map_of (identifiers idx)" by (rule mn)
    show "map_of (names idx') = map_of (names idx)" by (rule mm)
    show "idx_k idx' = idx_k idx" "idx_w idx' = idx_w idx" by (rule kw)+
    show "forward_set idx' d = forward_set idx d" for d using fs by simp
  qed
qed

theorem snapshot_round_trip_witness:
  "addToGroup_all (Index_new 2 2) [(''a'', [1, 2, 3]), (''b'', [1, 2, 3])] =
     Inr \<lparr>index = [(1, [0, 1]), (4194303, [0, 1])], groups = [(0, [1, 4194303]), (1, [1, 4194303])],
          identifiers = [(''a'', 0), (''b'', 1)], names = [(0, ''a''), (1, ''b'')],
          idx_k = 2, idx_w = 2\<rparr> \<and>
   length (identifiers \<lparr>index = [(1, [0, 1]), (4194303, [0, 1])],
          groups = [(0, [1, 4194303]), (1, [1, 4194303])],
          identifiers = [(''a'', 0), (''b'', 1)], names = [(0, ''a''), (1, ''b'')],
          idx_k = 2, idx_w = 2\<rparr>) \<le> 65536 \<and>
   iteration (identifiers \<lparr>index = [(1, [0, 1]), (4194303, [0, 1])],
          groups = [(0, [1, 4194303]), (1, [1, 4194303])],
          identifiers = [(''a'', 0), (''b'', 1)], names = [(0, ''a''), (1, ''b'')],
          idx_k = 2, idx_w = 2\<rparr>) [(''b'', 1), (''a'', 0)] \<and>
   iteration (index \<lparr>index = [(1, [0, 1]), (4194303, [0, 1])],
          groups = [(0, [1, 4194303]), (1, [1, 4194303])],
          identifiers = [(''a'', 0), (''b'', 1)], names = [(0, ''a''), (1, ''b'')],
          idx_k = 2, idx_w = 2\<rparr>) [(4194303, [0, 1]), (1, [0, 1])] \<and>
   serialize \<lparr>index = [(1, [0, 1]), (4194303, [0, 1])],
          groups = [(0, [1, 4194303]), (1, [1, 4194303])],
          identifiers = [(''a'', 0), (''b'', 1)], names = [(0, ''a''), (1, ''b'')],
          idx_k = 2, idx_w = 2\<rparr> [(''b'', 1), (''a'', 0)] [(4194303, [0, 1]), (1, [0, 1])] =
     JObject [(''k'', JNumber 2), (''w'', JNumber 2),
              (''index'', JArray [JArray [JNumber 4194303, JArray [JNumber 0, JNumber 1]],
                                  JArray [JNumber 1, JArray [JNumber 0, JNumber 1]]]),
              (''identifiers'', JArray [JArray [JString ''b'', JNumber 1],
                                        JArray [JString ''a'', JNumber 0]])] \<and>
   Index_of_json
     (JObject [(''k'', JNumber 2), (''w'', JNumber 2),
              (''index'', JArray [JArray [JNumber 4194303, JArray [JNumber 0, JNumber 1]],
                                  JArray [JNumber 1, JArray [JNumber 0, JNumber 1]]]),
              (''identifiers'', JArray [JArray [JString ''b'', JNumber 1],
                                        JArray [JString ''a'', JNumber 0]])]) =
     Inr \<lparr>index = [(4194303, [0, 1]), (1, [0, 1])], groups = [(0, [1, 4194303]), (1, [1, 4194303])],
          identifiers = [(''b'', 1), (''a'', 0)], names = [(1, ''b''), (0, ''a'')],
          idx_k = 2, idx_w = 2\<rparr> \<and>
   matchTokens \<lparr>index = [(1, [0, 1]), (4194303, [0, 1])],
          groups = [(0, [1, 4194303]), (1, [1, 4194303])],
          identifiers = [(''a'', 0), (''b'', 1)], names = [(0, ''a''), (1, ''b'')],
          idx_k = 2, idx_w = 2\<rparr> [1, 2, 3] =
     Inr [\<lparr>left = ''external'', right = ''a'', covered = 2, leftTotal = 2, rightTotal = 2\<rparr>,
          \<lparr>left = ''external'', right = ''b'', covered = 2, leftTotal = 2, rightTotal = 2\<rparr>] \<and>
   matchTokens \<lparr>index = [(4194303, [0, 1]), (1, [0, 1])],
          groups = [(0, [1, 4194303]), (1, [1, 4194303])],
          identifiers = [(''b'', 1), (''a'', 0)], names = [(1, ''b''), (0, ''a'')],
          idx_k = 2, idx_w = 2\<rparr> [1, 2, 3] =
     Inr [\<lparr>left = ''external'', right = ''b'', covered = 2, leftTotal = 2, rightTotal = 2\<rparr>,
          \<lparr>left = ''external'', right = ''a'', covered = 2, leftTotal = 2, rightTotal = 2\<rparr>]"
  using snapshot_round_trip[of 2 2 "[(''a'', [1, 2, 3]), (''b'', [1, 2, 3])]"
      "\<lparr>index = [(1, [0, 1]), (4194303, [0, 1])], groups = [(0, [1, 4194303]), (1, [1, 4194303])],
          identifiers = [(''a'', 0), (''b'', 1)], names = [(0, ''a''), (1, ''b'')],
          idx_k = 2, idx_w = 2\<rparr>" "[(''b'', 1), (''a'', 0)]" "[(4194303, [0, 1]), (1, [0, 1])]"]
  by (simp add: addToGroup_example_a addToGroup_example_b serialize_def Index_of_json_def
      iteration_def insert_commute
      bind_def at_key_def array_elem_def load_identifier_def load_entry_def load_id_def
      record_hash_def insert_at_def subscript_def set_insert_def insort_insert_key_def
      matchTokens_def fingerprints_example_123 count_hash_def increment_def make_pair_def
      word_le_nat_alt word_less_nat_alt)

text \<open>
  Without the bound on the number of names the round trip can fail. After \<open>wrap_docs\<close> the
  names \<open>"a"\<close> and \<open>wrap_name 65536\<close> both have id \<open>0\<close>, and the id-to-name map gives
  id \<open>0\<close> the name registered last. From a snapshot that lists the names in reverse order
  of registration the constructor gives id \<open>0\<close> the name \<open>"a"\<close>; \<open>matchTokens\<close> then
  has an entry for \<open>"a"\<close> on the loaded index and none on the original.
\<close>

theorem snapshot_wrap_counterexample:
  "\<exists>idx idx' ps ps'.
     addToGroup_all (Index_new 3 3) wrap_docs = Inr idx \<and>
     length (identifiers idx) = 65537 \<and>
     map_of (identifiers idx) ''a'' = Some 0 \<and>
     map_of (identifiers idx) (wrap_name 65536) = Some 0 \<and>
     map_of (names idx) 0 = Some (wrap_name 65536) \<and>
     iteration (identifiers idx) (rev (identifiers idx)) \<and>
     iteration (index idx) (index idx) \<and>
     Index_of_json (serialize idx (rev (identifiers idx)) (index idx)) = Inr idx' \<and>
     map_of (names idx') 0 = Some ''a'' \<and>
     matchTokens idx [] = Inr ps \<and> matchTokens idx' [] = Inr ps' \<and>
     ''a'' \<in> right ` set ps' \<and> ''a'' \<notin> right ` set ps \<and> set ps' \<noteq> set ps"
proof -
  have w: "(3 :: 16 word) \<noteq> 0" by simp
  from wrap_round_trip[OF wrap_docs_facts(1,2,3) w, of 3]
  obtain idx idx' ps ps' where f:
    "addToGroup_all (Index_new 3 3) wrap_docs = Inr idx"
    "length (identifiers idx) = 65537"
    "map_of (identifiers idx) (fst (hd wrap_docs)) = Some 0"
    "map_of (identifiers idx) (fst (last wrap_docs)) = Some 0"
    "map_of (names idx) 0 = Some (fst (last wrap_docs))"
    "iteration (identifiers idx) (rev (identifiers idx))"
    "iteration (index idx) (index idx)"
    "Index_of_json (serialize idx (rev (identifiers idx)) (index idx)) = Inr idx'"
    "map_of (names idx') 0 = Some (fst (hd wrap_docs))"
    "matchTokens idx [] = Inr ps" "matchTokens idx' [] = Inr ps'"
    "fst (hd wrap_docs) \<in> right ` set ps'" "fst (hd wrap_docs) \<notin> right ` set ps"
    by blast
  have ne: "set ps' \<noteq> set ps" using f(12,13) by blast
  show ?thesis
  proof (rule exI[of _ idx], rule exI[of _ idx'], rule exI[of _ ps], rule exI[of _ ps'], intro conjI)
    show "addToGroup_all (Index_new 3 3) wrap_docs = Inr idx" by (rule f(1))
    show "length (identifiers idx) = 65537" by (rule f(2))
    show "map_of (identifiers idx) ''a'' = Some 0" using f(3) unfolding wrap_docs_facts(4) .
    show "map_of (identifiers idx) (wrap_name 65536) = Some 0"
      using f(4) unfolding wrap_docs_facts(5) .
    show "map_of (names idx) 0 = Some (wrap_name 65536)" using f(5) unfolding wrap_docs_facts(5) .
    show "iteration (identifiers idx) (rev (identifiers idx))" by (rule f(6))
    show "iteration (index idx) (index idx)" by (rule f(7))
    show "Index_of_json (serialize idx (rev (identifiers idx)) (index idx)) = Inr idx'"
      by (rule f(8))
    show "map_of (names idx') 0 = Some ''a''" using f(9) unfolding wrap_docs_facts(4) .
    show "matchTokens idx [] = Inr ps" by (rule f(10))
    show "matchTokens idx' [] = Inr ps'" by (rule f(11))
    show "''a'' \<in> right ` set ps'" using f(12) unfolding wrap_docs_facts(4) .
    show "''a'' \<notin> right ` set ps" using f(13) unfolding wrap_docs_facts(4) .
    show "set ps' \<noteq> set ps" by (rule ne)
  qed
qed

section \<open>Properties of set_intersection\<close>

text \<open>
  On ascending lists without duplicates, as \<open>std::set\<close> iterates, \<open>set_intersection\<close>
  yields exactly the common elements, each once: its length is the size of the
  intersection.
\<close>

lemma set_intersection_sets:
  "sorted xs \<Longrightarrow> distinct xs \<Longrightarrow> sorted ys \<Longrightarrow> distinct ys \<Longrightarrow>
   set (set_intersection xs ys) = set xs \<inter> set ys \<and> distinct (set_intersection xs ys)"
proof (induction xs ys rule: set_intersection.induct)
  case (1 ys)
  then show ?case by simp
next
  case (2 x xs)
  then show ?case by simp
next
  case (3 x xs y ys)
  show ?case
  proof (cases "x < y")
    case True
    have "x \<notin> set (y # ys)" using True "3.prems"(3) by auto
    moreover have "set (set_intersection xs (y # ys)) = set xs \<inter> set (y # ys) \<and>
        distinct (set_intersection xs (y # ys))"
      using "3.IH"(1)[OF True] "3.prems" by simp
    ultimately show ?thesis using True by auto
  next
    case False
    show ?thesis
    proof (cases "y < x")
      case True
      have "y \<notin> set (x # xs)" using True "3.prems"(1) by auto
      moreover have "set (set_intersection (x # xs) ys) = set (x # xs) \<inter> set ys \<and>
          distinct (set_intersection (x # xs) ys)"
        using "3.IH"(2)[OF False True] "3.prems" by simp
      ultimately show ?thesis using False True by auto
    next
      case ge: False
      then have xy: "x = y" using False by simp
      have "set (set_intersection xs ys) = set xs \<inter> set ys \<and> distinct (set_intersection xs ys)"
        using "3.IH"(3)[OF False ge] "3.prems" by simp
      then show ?thesis using xy "3.prems" by auto
    qed
  qed
qed

lemma length_set_intersection:
  assumes "sorted xs" "distinct xs" "sorted ys" "distinct ys"
  shows "length (set_intersection xs ys) = card (set xs \<inter> set ys)"
  using set_intersection_sets[OF assms] by (metis distinct_card)

end
